theory Spec2Isabelle
  imports Main
begin

section \<open>Strings as the loader uses them\<close>

text \<open>
  The loader (the first line of \<^verbatim>\<open>src/unnamed/part_000\<close>) works on JavaScript strings
  with \<^verbatim>\<open>split("/")\<close>, \<^verbatim>\<open>join("/")\<close> and \<^verbatim>\<open>indexOf\<close>. A string is a \<^typ>\<open>string\<close>;
  \<^verbatim>\<open>split\<close> of the empty string is the one-element array holding the empty string, and
  an empty segment is kept wherever two separators meet.
\<close>

fun split :: "char \<Rightarrow> string \<Rightarrow> string list" where
  "split c [] = [[]]"
| "split c (x # xs) =
     (if x = c then [] # split c xs
      else (case split c xs of [] \<Rightarrow> [[x]] | w # ws \<Rightarrow> (x # w) # ws))"

fun join :: "string \<Rightarrow> string list \<Rightarrow> string" where
  "join sep [] = []"
| "join sep [x] = x"
| "join sep (x # y # ys) = x @ sep @ join sep (y # ys)"

section \<open>PathResolver\<close>

text \<open>
  \<^verbatim>\<open>resolvePath(root, dependency)\<close>: the loop over the directory segments of the
  dependency, as a recursion on the segments still to be read (\<^verbatim>\<open>o.slice(i)\<close>). On
  \<^verbatim>\<open>".."\<close> with an empty base the source concatenates \<^verbatim>\<open>o.slice(i)\<close>, which starts at the
  current segment, and leaves the loop.
\<close>

fun walkSegments :: "string list \<Rightarrow> string list \<Rightarrow> string list" where
  "walkSegments n [] = n"
| "walkSegments n (s # rest) =
     (if s = ''.'' then walkSegments n rest
      else if s = ''..'' then
        (if n = [] then n @ (s # rest) else walkSegments (butlast n) rest)
      else walkSegments (n @ [s]) rest)"

definition resolvePath :: "string \<Rightarrow> string \<Rightarrow> string" where
  "resolvePath root dependency =
     (if dependency = ''exports'' then dependency
      else
        let n = butlast (split CHR ''/'' root);
            segs = split CHR ''/'' dependency;
            r = last segs;
            n' = walkSegments n (butlast segs)
        in join ''/'' (n' @ [r]))"


text \<open>\<^verbatim>\<open>haystack.indexOf(needle)\<close>: the first position of the needle, or \<open>-1\<close>.\<close>

fun indexOfFrom :: "string \<Rightarrow> string \<Rightarrow> int \<Rightarrow> int" where
  "indexOfFrom needle [] i = (if needle = [] then i else - 1)"
| "indexOfFrom needle (x # xs) i =
     (if take (length needle) (x # xs) = needle then i
      else indexOfFrom needle xs (i + 1))"

definition indexOf :: "string \<Rightarrow> string \<Rightarrow> int" where
  "indexOf haystack needle = indexOfFrom needle haystack 0"

section \<open>Plain objects and the names they inherit\<close>

text \<open>
  The tables of the loader (\<^verbatim>\<open>_modules\<close>, \<^verbatim>\<open>_conditionalModules\<close>, \<^verbatim>\<open>_events\<close>) are plain
  objects \<^verbatim>\<open>{}\<close>, read as \<^verbatim>\<open>table[key]\<close>: a key the table does not hold itself is looked
  up in \<^verbatim>\<open>Object.prototype\<close>. What is found there is a function, of which the loader can
  see the \<^verbatim>\<open>name\<close> and the \<^verbatim>\<open>length\<close> (the number of its parameters), or, under
  \<^verbatim>\<open>__proto__\<close>, \<^verbatim>\<open>Object.prototype\<close> itself, which has neither. An inherited object is
  truthy and has none of the fields of a descriptor and none of the methods of an
  array.
\<close>

datatype inherited = Function string nat | Prototype

definition objectPrototype :: "(string \<times> inherited) list" where
  "objectPrototype =
     [(''constructor'', Function ''Object'' 1),
      (''hasOwnProperty'', Function ''hasOwnProperty'' 1),
      (''isPrototypeOf'', Function ''isPrototypeOf'' 1),
      (''propertyIsEnumerable'', Function ''propertyIsEnumerable'' 1),
      (''toLocaleString'', Function ''toLocaleString'' 0),
      (''toString'', Function ''toString'' 0),
      (''valueOf'', Function ''valueOf'' 0),
      (''__defineGetter__'', Function ''__defineGetter__'' 2),
      (''__defineSetter__'', Function ''__defineSetter__'' 2),
      (''__lookupGetter__'', Function ''__lookupGetter__'' 1),
      (''__lookupSetter__'', Function ''__lookupSetter__'' 1),
      (''__proto__'', Prototype)]"

text \<open>What \<^verbatim>\<open>table[key]\<close> yields: a value of the table, an inherited object, or \<^verbatim>\<open>undefined\<close>.\<close>

datatype 'a property = Own 'a | Inherited inherited | Missing

definition getProperty :: "(string \<rightharpoonup> 'a) \<Rightarrow> string \<Rightarrow> 'a property" where
  "getProperty table k =
     (case table k of
        Some v \<Rightarrow> Own v
      | None \<Rightarrow> (case map_of objectPrototype k of Some b \<Rightarrow> Inherited b | None \<Rightarrow> Missing))"

text \<open>
  The \<^verbatim>\<open>name\<close> of an inherited object where the loader makes a string of it, in a
  message or as a key: \<^verbatim>\<open>undefined\<close> becomes \<^verbatim>\<open>"undefined"\<close>.
\<close>

definition nameOf :: "inherited \<Rightarrow> string" where
  "nameOf b = (case b of Function f n \<Rightarrow> f | Prototype \<Rightarrow> ''undefined'')"

section \<open>The data model\<close>

text \<open>
  A JavaScript value, as far as the loader looks at one: it only tests an implementation
  for truthiness and hands it on. \<open>ExportsOf n\<close> is the object created for the
  \<^verbatim>\<open>"exports"\<close> slot of module \<open>n\<close>, as the factory has filled it.
\<close>

datatype jsval =
    Undefined
  | Null
  | Boolean bool
  | Number int
  | Str string
  | Object nat
  | ExportsOf string

fun truthy :: "jsval \<Rightarrow> bool" where
  "truthy Undefined = False"
| "truthy Null = False"
| "truthy (Boolean b) = b"
| "truthy (Number i) = (i \<noteq> 0)"
| "truthy (Str s) = (s \<noteq> [])"
| "truthy (Object i) = True"
| "truthy (ExportsOf n) = True"

text \<open>
  \<^verbatim>\<open>condition = {trigger, test}\<close>. The test is a function (or a string the builder
  evaluates) without arguments; \<open>test\<close> is the value it returns when called.
\<close>

record condition =
  trigger :: string
  test :: bool

text \<open>
  A module descriptor. A field the JavaScript object does not have is \<open>None\<close>
  (\<open>Undefined\<close> for the implementation); a flag that was never set reads as false.
\<close>

record descriptor =
  name :: string
  dependencies :: "string list"
  path :: "string option"
  fullPath :: "string option"
  condition :: "condition option"
  pendingImplementation :: "(jsval list \<Rightarrow> jsval) option"
  implementation :: jsval
  mark :: bool
  tmpMark :: bool
  conditionalMark :: bool
  load :: bool

definition emptyDescriptor :: descriptor where
  "emptyDescriptor =
     \<lparr>name = [], dependencies = [], path = None, fullPath = None, condition = None,
      pendingImplementation = None, implementation = Undefined, mark = False,
      tmpMark = False, conditionalMark = False, load = False\<rparr>"

record config =
  basePath :: string
  url :: string
  combine :: bool

text \<open>
  The registry of the ConfigParser (\<^verbatim>\<open>_modules\<close>, \<^verbatim>\<open>_conditionalModules\<close>: the properties
  the two tables hold themselves) together with the two arrays of the DependencyBuilder
  that works on it (\<^verbatim>\<open>_queue\<close>, \<^verbatim>\<open>_result\<close>). An object stored under a key is a value
  here, so one descriptor object registered under two keys is outside the model.

  The builder and the URLBuilder write their flags on whatever object a lookup gave
  them, also on an inherited one, which no registry holds and \<^verbatim>\<open>_cleanup\<close> never
  reaches: the last three fields are the keys of \<^verbatim>\<open>Object.prototype\<close> whose object has
  been given \<^verbatim>\<open>tmpMark\<close>, \<^verbatim>\<open>conditionalMark\<close> and \<^verbatim>\<open>load\<close>. (A flag on
  \<^verbatim>\<open>Object.prototype\<close> itself, the object under \<^verbatim>\<open>__proto__\<close>, would from then on be read
  on every object that was never given that flag; this is not followed here.)
\<close>

record state =
  modules :: "string \<rightharpoonup> descriptor"
  conditionalModules :: "string \<rightharpoonup> string list"
  queue :: "string list"
  result :: "string list"
  inheritedTmpMark :: "string set"
  inheritedConditionalMark :: "string set"
  inheritedLoad :: "string set"

datatype error =
    CycleError string
  | TypeError
  | NotRegistered string
  | FetchError string

text \<open>What a step that may throw leaves: the error with the state, or the state.\<close>

type_synonym outcome = "(error \<times> state) + state"

section \<open>ConfigParser\<close>

text \<open>\<^verbatim>\<open>ConfigParser.resolvePath(module)\<close> rewrites every dependency in place.\<close>

definition resolveDescriptorPaths :: "descriptor \<Rightarrow> descriptor" where
  "resolveDescriptorPaths e =
     e\<lparr>dependencies := map (resolvePath (name e)) (dependencies e)\<rparr>"

text \<open>
  \<^verbatim>\<open>_registerConditionalModule\<close>: the list under the trigger is created when the lookup
  gives nothing; on an inherited object (a trigger named \<^verbatim>\<open>constructor\<close>, say) the call
  of \<^verbatim>\<open>push\<close> throws.
\<close>

definition registerConditionalModule ::
  "descriptor \<Rightarrow> (string \<rightharpoonup> string list) \<Rightarrow> error + (string \<rightharpoonup> string list)" where
  "registerConditionalModule e idx =
     (case condition e of
        None \<Rightarrow> Inr idx
      | Some c \<Rightarrow>
          (case getProperty idx (trigger c) of
             Own t \<Rightarrow> Inr (idx(trigger c \<mapsto> t @ [name e]))
           | Missing \<Rightarrow> Inr (idx(trigger c \<mapsto> [name e]))
           | Inherited b \<Rightarrow> Inl TypeError))"

text \<open>
  \<^verbatim>\<open>addModule\<close>: store the descriptor, resolve its paths, list it under its trigger. The
  assignment \<^verbatim>\<open>_modules[name] = module\<close> stores a property under every name but
  \<^verbatim>\<open>__proto__\<close>, where it replaces the prototype of the table instead: a module of that
  name is outside the model.
\<close>

definition addModule :: "descriptor \<Rightarrow> state \<Rightarrow> outcome" where
  "addModule e st =
     (let e' = resolveDescriptorPaths e;
          st' = st\<lparr>modules := (modules st)(name e' \<mapsto> e')\<rparr>
      in case registerConditionalModule e' (conditionalModules st) of
           Inl err \<Rightarrow> Inl (err, st')
         | Inr idx \<Rightarrow> Inr (st'\<lparr>conditionalModules := idx\<rparr>))"

text \<open>
  \<^verbatim>\<open>_parseModules\<close>: every entry of the \<^verbatim>\<open>modules\<close> object of the configuration, in the
  order of its keys, gets its key as name and is added.
\<close>

fun parseModules :: "(string \<times> descriptor) list \<Rightarrow> state \<Rightarrow> outcome" where
  "parseModules [] st = Inr st"
| "parseModules ((k, d) # rest) st =
     (case addModule (d\<lparr>name := k\<rparr>) st of
        Inl x \<Rightarrow> Inl x
      | Inr st' \<Rightarrow> parseModules rest st')"

definition emptyState :: state where
  "emptyState =
     \<lparr>modules = Map.empty, conditionalModules = Map.empty, queue = [], result = [],
      inheritedTmpMark = {}, inheritedConditionalMark = {}, inheritedLoad = {}\<rparr>"

section \<open>EventEmitter\<close>

text \<open>
  A listener is a function object; \<^verbatim>\<open>off\<close> finds it by identity (\<^verbatim>\<open>indexOf\<close>), so a
  listener is a number here, and \<^verbatim>\<open>_events\<close> maps an event name to the listeners in
  the order of their registration. On an inherited object \<^verbatim>\<open>push\<close>, \<^verbatim>\<open>indexOf\<close> and
  \<^verbatim>\<open>slice\<close> are not functions, and the call throws. The warnings written to the
  console are left out.
\<close>

type_synonym emitter = "string \<rightharpoonup> nat list"

definition on :: "string \<Rightarrow> nat \<Rightarrow> emitter \<Rightarrow> error + emitter" where
  "on event callback events =
     (case getProperty events event of
        Own n \<Rightarrow> Inr (events(event \<mapsto> n @ [callback]))
      | Missing \<Rightarrow> Inr (events(event \<mapsto> [callback]))
      | Inherited b \<Rightarrow> Inl TypeError)"

definition off :: "string \<Rightarrow> nat \<Rightarrow> emitter \<Rightarrow> error + emitter" where
  "off event callback events =
     (case getProperty events event of
        Own n \<Rightarrow>
          Inr (if callback \<in> set n then events(event \<mapsto> remove1 callback n) else events)
      | Missing \<Rightarrow> Inr events
      | Inherited b \<Rightarrow> Inl TypeError)"

text \<open>
  What a listener does when called is given by \<open>run\<close>: from the listener, the payload and
  the program as it stands (the emitter, and whatever else the listener can reach) to
  the program it leaves, or to the error it throws. The loop of \<^verbatim>\<open>emit\<close> goes over the
  copy \<^verbatim>\<open>n.slice(0)\<close>; a listener that throws ends it.
\<close>

fun emitLoop ::
  "(nat \<Rightarrow> 'p \<Rightarrow> emitter \<times> 's \<Rightarrow> (error \<times> emitter \<times> 's) + emitter \<times> 's) \<Rightarrow> nat list \<Rightarrow> 'p
     \<Rightarrow> emitter \<times> 's \<Rightarrow> (error \<times> emitter \<times> 's) + emitter \<times> 's" where
  "emitLoop run [] arg w = Inr w"
| "emitLoop run (r # rest) arg w =
     (case run r arg w of
        Inl x \<Rightarrow> Inl x
      | Inr w' \<Rightarrow> emitLoop run rest arg w')"

definition emit ::
  "(nat \<Rightarrow> 'p \<Rightarrow> emitter \<times> 's \<Rightarrow> (error \<times> emitter \<times> 's) + emitter \<times> 's) \<Rightarrow> string \<Rightarrow> 'p
     \<Rightarrow> emitter \<times> 's \<Rightarrow> (error \<times> emitter \<times> 's) + emitter \<times> 's" where
  "emit run event arg w =
     (case getProperty (fst w) event of
        Own n \<Rightarrow> emitLoop run n arg w
      | Missing \<Rightarrow> Inr w
      | Inherited b \<Rightarrow> Inl (TypeError, w))"

section \<open>DependencyBuilder\<close>

definition updateDescriptor :: "string \<Rightarrow> (descriptor \<Rightarrow> descriptor) \<Rightarrow> state \<Rightarrow> state" where
  "updateDescriptor k f st =
     (case modules st k of
        None \<Rightarrow> st
      | Some d \<Rightarrow> st\<lparr>modules := (modules st)(k \<mapsto> f d)\<rparr>)"

text \<open>
  The trigger list \<^verbatim>\<open>_processConditionalModules\<close> reads under a name, \<open>None\<close> when the
  lookup gives nothing. An inherited function is truthy and has a \<^verbatim>\<open>length\<close>, and each
  of its elements \<^verbatim>\<open>t[o]\<close> is \<^verbatim>\<open>undefined\<close>, which as a key of the registry reads
  \<^verbatim>\<open>"undefined"\<close>; \<^verbatim>\<open>Object.prototype\<close> is truthy and has no \<^verbatim>\<open>length\<close>, so the loop over
  it has no turn.
\<close>

definition triggersOf :: "(string \<rightharpoonup> string list) \<Rightarrow> string \<Rightarrow> string list option" where
  "triggersOf idx nm =
     (case getProperty idx nm of
        Own t \<Rightarrow> Some t
      | Inherited (Function f n) \<Rightarrow> Some (replicate n ''undefined'')
      | Inherited Prototype \<Rightarrow> Some []
      | Missing \<Rightarrow> None)"

text \<open>
  The loop of \<^verbatim>\<open>_processConditionalModules\<close> over the modules listed under a trigger.
  Reading \<^verbatim>\<open>r.name\<close> of a name that is not registered, or \<^verbatim>\<open>r.condition.test\<close> of a
  module (or an inherited object) without a condition, throws a TypeError; the
  condition is not read when the name is in the queue already.
\<close>

fun conditionalLoop :: "string list \<Rightarrow> state \<Rightarrow> outcome" where
  "conditionalLoop [] st = Inr st"
| "conditionalLoop (c # cs) st =
     (case getProperty (modules st) c of
        Missing \<Rightarrow> Inl (TypeError, st)
      | Inherited (Function f n) \<Rightarrow>
          if f \<notin> set (queue st) then Inl (TypeError, st) else conditionalLoop cs st
      | Inherited Prototype \<Rightarrow> Inl (TypeError, st)
      | Own r \<Rightarrow>
          if name r \<notin> set (queue st) then
            (case condition r of
               None \<Rightarrow> Inl (TypeError, st)
             | Some cnd \<Rightarrow>
                 if test cnd then conditionalLoop cs (st\<lparr>queue := queue st @ [name r]\<rparr>)
                 else conditionalLoop cs st)
          else conditionalLoop cs st)"

definition setConditionalMark :: "string \<Rightarrow> state \<Rightarrow> state" where
  "setConditionalMark k st = updateDescriptor k (\<lambda>d. d\<lparr>conditionalMark := True\<rparr>) st"

text \<open>
  \<^verbatim>\<open>_processConditionalModules(module)\<close>, called with the module stored under \<open>k\<close>; and
  the same function called with the inherited object \<open>b\<close> found under \<open>k\<close>.
\<close>

definition processConditionalModules :: "string \<Rightarrow> state \<Rightarrow> outcome" where
  "processConditionalModules k st =
     (case modules st k of
        None \<Rightarrow> Inl (TypeError, st)
      | Some e \<Rightarrow>
          (case triggersOf (conditionalModules st) (name e) of
             None \<Rightarrow> Inr st
           | Some t \<Rightarrow>
               if conditionalMark e then Inr st
               else (case conditionalLoop t st of
                       Inl x \<Rightarrow> Inl x
                     | Inr st' \<Rightarrow> Inr (setConditionalMark k st'))))"

definition processConditionalInherited :: "string \<Rightarrow> inherited \<Rightarrow> state \<Rightarrow> outcome" where
  "processConditionalInherited k b st =
     (case triggersOf (conditionalModules st) (nameOf b) of
        None \<Rightarrow> Inr st
      | Some t \<Rightarrow>
          if k \<in> inheritedConditionalMark st then Inr st
          else (case conditionalLoop t st of
                  Inl x \<Rightarrow> Inl x
                | Inr st' \<Rightarrow>
                    Inr (st'\<lparr>inheritedConditionalMark := insert k (inheritedConditionalMark st')\<rparr>)))"

text \<open>
  A \<^verbatim>\<open>for\<close> loop whose body may throw: the first error ends it. \<open>None\<close> is a body
  that did not return within its fuel.
\<close>

fun forEach :: "('a \<Rightarrow> state \<Rightarrow> outcome option) \<Rightarrow> 'a list \<Rightarrow> state \<Rightarrow> outcome option" where
  "forEach f [] st = Some (Inr st)"
| "forEach f (x # xs) st =
     (case f x st of
        None \<Rightarrow> None
      | Some (Inl e) \<Rightarrow> Some (Inl e)
      | Some (Inr st') \<Rightarrow> forEach f xs st')"

text \<open>The assignments of \<^verbatim>\<open>_visit\<close> to the flags of the module stored under \<open>k\<close>.\<close>

definition setTmpMark :: "string \<Rightarrow> state \<Rightarrow> state" where
  "setTmpMark k st = updateDescriptor k (\<lambda>d. d\<lparr>tmpMark := True\<rparr>) st"

definition setMarked :: "string \<Rightarrow> state \<Rightarrow> state" where
  "setMarked k st = updateDescriptor k (\<lambda>d. d\<lparr>mark := True, tmpMark := False\<rparr>) st"

text \<open>The body of the loop over the dependencies: \<^verbatim>\<open>"exports"\<close> is passed over.\<close>

definition skipExports ::
  "(string \<Rightarrow> state \<Rightarrow> outcome option) \<Rightarrow> string \<Rightarrow> state \<Rightarrow> outcome option" where
  "skipExports f d s = (if d = ''exports'' then Some (Inr s) else f d s)"

text \<open>
  \<^verbatim>\<open>_visit\<close> called with the inherited object \<open>b\<close> found under \<open>k\<close>: the object is given
  \<^verbatim>\<open>tmpMark\<close>, then \<^verbatim>\<open>e.dependencies.length\<close> throws, and the flag stays; a later visit of
  the same object finds it and throws the cycle error.
\<close>

definition visitInherited :: "string \<Rightarrow> inherited \<Rightarrow> state \<Rightarrow> outcome" where
  "visitInherited k b st =
     (if k \<in> inheritedTmpMark st then Inl (CycleError (nameOf b), st)
      else
        (case processConditionalInherited k b st of
           Inl x \<Rightarrow> Inl x
         | Inr st1 \<Rightarrow> Inl (TypeError, st1\<lparr>inheritedTmpMark := insert k (inheritedTmpMark st1)\<rparr>)))"

text \<open>
  \<^verbatim>\<open>_visit(module)\<close>, called with \<^verbatim>\<open>modules[k]\<close>: the argument is the key \<open>k\<close>, and a key
  under which the lookup gives nothing is the call \<^verbatim>\<open>_visit(undefined)\<close>, which throws
  on \<^verbatim>\<open>e.tmpMark\<close>. The recursion is bounded by fuel: \<open>None\<close> when it runs out.
\<close>

primrec visit :: "nat \<Rightarrow> string \<Rightarrow> state \<Rightarrow> outcome option" where
  "visit 0 k st = None"
| "visit (Suc n) k st =
     (case getProperty (modules st) k of
        Missing \<Rightarrow> Some (Inl (TypeError, st))
      | Inherited b \<Rightarrow> Some (visitInherited k b st)
      | Own e \<Rightarrow>
          if tmpMark e then Some (Inl (CycleError (name e), st))
          else
            (case processConditionalModules k st of
               Inl x \<Rightarrow> Some (Inl x)
             | Inr st1 \<Rightarrow>
                 if mark e then Some (Inr st1)
                 else
                   (case forEach (skipExports (visit n)) (dependencies e) (setTmpMark k st1) of
                      None \<Rightarrow> None
                    | Some (Inl x) \<Rightarrow> Some (Inl x)
                    | Some (Inr st3) \<Rightarrow>
                        Some (Inr ((setMarked k st3)\<lparr>result := name e # result st3\<rparr>)))))"

text \<open>
  \<^verbatim>\<open>_resolveDependencies\<close>: the loop over the queue by index \<open>t\<close>, while the queue grows.
  An inherited object has no \<^verbatim>\<open>mark\<close> and is visited.
\<close>

primrec resolveLoop :: "nat \<Rightarrow> nat \<Rightarrow> state \<Rightarrow> outcome option" where
  "resolveLoop 0 t st = None"
| "resolveLoop (Suc n) t st =
     (if t < length (queue st) then
        (case getProperty (modules st) (queue st ! t) of
           Missing \<Rightarrow> Some (Inl (TypeError, st))
         | Inherited b \<Rightarrow>
             (case visit n (queue st ! t) st of
                None \<Rightarrow> None
              | Some (Inl x) \<Rightarrow> Some (Inl x)
              | Some (Inr st') \<Rightarrow> resolveLoop n (t + 1) st')
         | Own m \<Rightarrow>
             if mark m then resolveLoop n (t + 1) st
             else
               (case visit n (queue st ! t) st of
                  None \<Rightarrow> None
                | Some (Inl x) \<Rightarrow> Some (Inl x)
                | Some (Inr st') \<Rightarrow> resolveLoop n (t + 1) st'))
      else Some (Inr st))"

definition clearFlags :: "descriptor \<Rightarrow> descriptor" where
  "clearFlags d = d\<lparr>conditionalMark := False, mark := False, tmpMark := False\<rparr>"

text \<open>\<^verbatim>\<open>_cleanup\<close> goes over the properties the registry holds itself.\<close>

definition cleanup :: "state \<Rightarrow> state" where
  "cleanup st = st\<lparr>modules := map_option clearFlags \<circ> modules st, queue := [], result := []\<rparr>"

text \<open>
  \<^verbatim>\<open>resolveDependencies(modules)\<close>: \<^verbatim>\<open>try { ... } finally { this._cleanup() }\<close>. The
  outcome is the error thrown or the array returned, and the state the call leaves.
\<close>

definition resolveDependencies ::
  "nat \<Rightarrow> string list \<Rightarrow> state \<Rightarrow> ((error + string list) \<times> state) option" where
  "resolveDependencies fuel request st =
     (case resolveLoop fuel 0 (st\<lparr>queue := request\<rparr>) of
        None \<Rightarrow> None
      | Some (Inl (err, st')) \<Rightarrow> Some (Inl err, cleanup st')
      | Some (Inr st') \<Rightarrow> Some (Inr (rev (result st')), cleanup st'))"

section \<open>URLBuilder\<close>

text \<open>A string field is used when it is truthy: present and not empty.\<close>

definition truthyString :: "string option \<Rightarrow> bool" where
  "truthyString s = (case s of None \<Rightarrow> False | Some v \<Rightarrow> v \<noteq> [])"

definition getModulePath :: "descriptor \<Rightarrow> string" where
  "getModulePath e =
     (if truthyString (path e) then the (path e)
      else if indexOf (name e) ''.js'' \<noteq> int (length (name e)) - 3 then name e @ ''.js''
      else name e)"

definition normalizedBasePath :: "config \<Rightarrow> string" where
  "normalizedBasePath cfg =
     (if basePath cfg = [] \<or> last (basePath cfg) \<noteq> CHR ''/'' then basePath cfg @ ''/''
      else basePath cfg)"

text \<open>
  The loop of \<^verbatim>\<open>build\<close>: \<open>buffer\<close> collects the paths to combine, \<open>result\<close> the URLs.
  An inherited function has no \<^verbatim>\<open>fullPath\<close> and no \<^verbatim>\<open>path\<close>, its path is made from its
  \<^verbatim>\<open>name\<close>, and it is given \<^verbatim>\<open>load\<close>; \<^verbatim>\<open>Object.prototype\<close> has no \<^verbatim>\<open>name\<close>, and
  \<^verbatim>\<open>e.name.indexOf\<close> throws.
\<close>

fun buildLoop ::
  "config \<Rightarrow> string list \<Rightarrow> string list \<Rightarrow> string list \<Rightarrow> state
     \<Rightarrow> (error \<times> state) + (string list \<times> string list \<times> state)" where
  "buildLoop cfg [] buffer urls st = Inr (buffer, urls, st)"
| "buildLoop cfg (m # ms) buffer urls st =
     (case getProperty (modules st) m of
        Missing \<Rightarrow> Inl (TypeError, st)
      | Inherited Prototype \<Rightarrow> Inl (TypeError, st)
      | Inherited (Function f n) \<Rightarrow>
          let st' = st\<lparr>inheritedLoad := insert m (inheritedLoad st)\<rparr>;
              p = (if indexOf f ''.js'' \<noteq> int (length f) - 3 then f @ ''.js'' else f)
          in if combine cfg then buildLoop cfg ms (buffer @ [p]) urls st'
             else buildLoop cfg ms buffer (urls @ [url cfg @ normalizedBasePath cfg @ p]) st'
      | Own u \<Rightarrow>
          let st' = updateDescriptor m (\<lambda>d. d\<lparr>load := True\<rparr>) st
          in if truthyString (fullPath u) then
               buildLoop cfg ms buffer (urls @ [the (fullPath u)]) st'
             else if combine cfg then
               buildLoop cfg ms (buffer @ [getModulePath u]) urls st'
             else
               buildLoop cfg ms buffer
                 (urls @ [url cfg @ normalizedBasePath cfg @ getModulePath u]) st')"

definition build ::
  "config \<Rightarrow> string list \<Rightarrow> state \<Rightarrow> (error \<times> state) + (string list \<times> state)" where
  "build cfg ms st =
     (case buildLoop cfg ms [] [] st of
        Inl x \<Rightarrow> Inl x
      | Inr (buffer, urls, st') \<Rightarrow>
          if buffer \<noteq> [] then
            Inr (urls @ [url cfg @ ''?'' @ normalizedBasePath cfg
                           @ join (''&'' @ normalizedBasePath cfg) buffer], st')
          else Inr (urls, st'))"

section \<open>Loader\<close>

text \<open>
  \<^verbatim>\<open>_addModuleImplementations(requested)\<close>, the loop with its accumulator. An inherited
  object is truthy and has no \<^verbatim>\<open>implementation\<close>.
\<close>

fun addImplementationsLoop :: "(string \<rightharpoonup> descriptor) \<Rightarrow> string list \<Rightarrow> jsval list \<Rightarrow> jsval list" where
  "addImplementationsLoop ms [] acc = acc"
| "addImplementationsLoop ms (r # rest) acc =
     addImplementationsLoop ms rest
       (acc @ [case getProperty ms r of
                 Own d \<Rightarrow> implementation d
               | Inherited b \<Rightarrow> Undefined
               | Missing \<Rightarrow> Undefined])"

definition addModuleImplementations :: "string list \<Rightarrow> state \<Rightarrow> jsval list" where
  "addModuleImplementations requested st = addImplementationsLoop (modules st) requested []"

text \<open>
  The fulfilment handler of \<^verbatim>\<open>require\<close>, run once \<^verbatim>\<open>_loadModules\<close> has settled: it
  collects the implementations of the names the caller gave (the array \<^verbatim>\<open>t\<close>, not the
  array the builder returned) and applies the success callback, when there is one.
\<close>

definition requireFulfilled ::
  "string list \<Rightarrow> (jsval list \<Rightarrow> 'r) option \<Rightarrow> state \<Rightarrow> 'r option" where
  "requireFulfilled requested success st =
     (case success of
        None \<Rightarrow> None
      | Some f \<Rightarrow> Some (f (addModuleImplementations requested st)))"

text \<open>
  \<^verbatim>\<open>Loader._resolveDependencies(modules)\<close>: keep the names under which the lookup gives
  something truthy (\<^verbatim>\<open>r[e[s]] && i.push(e[s])\<close>), a module or an inherited object, then
  call the builder; an error thrown rejects the promise.
\<close>

fun filterRegistered :: "(string \<rightharpoonup> descriptor) \<Rightarrow> string list \<Rightarrow> string list \<Rightarrow> string list" where
  "filterRegistered ms [] acc = acc"
| "filterRegistered ms (r # rest) acc =
     filterRegistered ms rest
       (case getProperty ms r of
          Own d \<Rightarrow> acc @ [r]
        | Inherited b \<Rightarrow> acc @ [r]
        | Missing \<Rightarrow> acc)"

definition loaderResolveDependencies ::
  "nat \<Rightarrow> string list \<Rightarrow> state \<Rightarrow> ((error + string list) \<times> state) option" where
  "loaderResolveDependencies fuel requested st =
     resolveDependencies fuel (filterRegistered (modules st) requested []) st"

text \<open>
  \<^verbatim>\<open>_checkModuleDependencies(module)\<close>: true when every dependency but \<^verbatim>\<open>"exports"\<close>
  is registered with a truthy implementation; a dependency under which the lookup gives
  nothing throws, and an inherited object counts as a module without implementation.
\<close>

fun checkModuleDependencies :: "(string \<rightharpoonup> descriptor) \<Rightarrow> string list \<Rightarrow> error + bool" where
  "checkModuleDependencies ms [] = Inr True"
| "checkModuleDependencies ms (d # ds) =
     (if d = ''exports'' then checkModuleDependencies ms ds
      else (case getProperty ms d of
              Missing \<Rightarrow> Inl (NotRegistered d)
            | Inherited b \<Rightarrow> Inr False
            | Own s \<Rightarrow>
                if truthy (implementation s) then checkModuleDependencies ms ds
                else Inr False))"

text \<open>
  The loop of \<^verbatim>\<open>_registerModule\<close> that collects the arguments of the factory; \<open>exports\<close>
  is the variable \<^verbatim>\<open>t\<close>, the object of the last \<^verbatim>\<open>"exports"\<close> slot.
\<close>

fun collectArguments ::
  "(string \<rightharpoonup> descriptor) \<Rightarrow> string \<Rightarrow> string list \<Rightarrow> jsval \<Rightarrow> jsval list \<Rightarrow> error + (jsval \<times> jsval list)" where
  "collectArguments ms owner [] exports args = Inr (exports, args)"
| "collectArguments ms owner (d # ds) exports args =
     (if d = ''exports'' then
        collectArguments ms owner ds (ExportsOf owner) (args @ [ExportsOf owner])
      else (case getProperty ms d of
              Missing \<Rightarrow> Inl TypeError
            | Inherited b \<Rightarrow> collectArguments ms owner ds exports (args @ [Undefined])
            | Own a \<Rightarrow> collectArguments ms owner ds exports (args @ [implementation a])))"

text \<open>
  \<^verbatim>\<open>_registerModule(module)\<close> up to the call of \<^verbatim>\<open>addModule\<close>. The \<^verbatim>\<open>emit\<close> that follows
  calls the listeners of \<^verbatim>\<open>_waitForImplementation\<close>, which leave the registry as it is;
  what they do to the promises that wait is \<open>notify\<close> below.
\<close>

definition registerModule :: "descriptor \<Rightarrow> state \<Rightarrow> outcome" where
  "registerModule e st =
     (case collectArguments (modules st) (name e) (dependencies e) Undefined [] of
        Inl err \<Rightarrow> Inl (err, st)
      | Inr (exports, args) \<Rightarrow>
          (case pendingImplementation e of
             None \<Rightarrow> Inl (TypeError, st)
           | Some factory \<Rightarrow>
               let c = factory args
               in addModule (e\<lparr>implementation := (if truthy c then c else exports)\<rparr>) st))"

text \<open>
  \<^verbatim>\<open>define(name, dependencies, implementation, config)\<close>: the module is registered at
  once when its dependencies are implemented; otherwise the descriptor waits and
  \<^verbatim>\<open>_registerModule\<close> is called on it later. An error thrown rejects the promise
  \<^verbatim>\<open>define\<close> returns.
\<close>

datatype defined = Registered state | Waiting descriptor

definition loaderDefine ::
  "string \<Rightarrow> string list \<Rightarrow> (jsval list \<Rightarrow> jsval) \<Rightarrow> descriptor option \<Rightarrow> state
     \<Rightarrow> (error \<times> state) + defined" where
  "loaderDefine n deps factory extra st =
     (let s = resolveDescriptorPaths
                ((case extra of None \<Rightarrow> emptyDescriptor | Some d \<Rightarrow> d)
                   \<lparr>name := n, dependencies := deps, pendingImplementation := Some factory\<rparr>)
      in case checkModuleDependencies (modules st) (dependencies s) of
           Inl err \<Rightarrow> Inl (err, st)
         | Inr True \<Rightarrow>
             (case registerModule s st of
                Inl x \<Rightarrow> Inl x
              | Inr st' \<Rightarrow> Inr (Registered st'))
         | Inr False \<Rightarrow> Inr (Waiting s))"

text \<open>
  \<^verbatim>\<open>_filterModulesNoImpl\<close> and \<^verbatim>\<open>_filterNotLoadedModules\<close>: the names whose module is not
  registered or has no truthy implementation (and, for the second, no fetch under way).
  The test \<^verbatim>\<open>"exports" === r\<close> compares a descriptor with a string and never holds.
\<close>

fun filterModulesNoImpl :: "(string \<rightharpoonup> descriptor) \<Rightarrow> string list \<Rightarrow> string list \<Rightarrow> string list" where
  "filterModulesNoImpl ms [] acc = acc"
| "filterModulesNoImpl ms (m # rest) acc =
     filterModulesNoImpl ms rest
       (case getProperty ms m of
          Missing \<Rightarrow> acc @ [m]
        | Inherited b \<Rightarrow> acc @ [m]
        | Own r \<Rightarrow> if truthy (implementation r) then acc else acc @ [m])"

fun filterNotLoadedModules :: "state \<Rightarrow> string list \<Rightarrow> string list \<Rightarrow> string list" where
  "filterNotLoadedModules st [] acc = acc"
| "filterNotLoadedModules st (m # rest) acc =
     filterNotLoadedModules st rest
       (case getProperty (modules st) m of
          Missing \<Rightarrow> acc @ [m]
        | Inherited b \<Rightarrow> if m \<in> inheritedLoad st then acc else acc @ [m]
        | Own r \<Rightarrow> if truthy (implementation r) \<or> load r then acc else acc @ [m])"

text \<open>
  The promise \<^verbatim>\<open>_waitForImplementation(module)\<close> returns. Called with \<^verbatim>\<open>undefined\<close>, the
  executor throws on \<^verbatim>\<open>e.implementation\<close> and the promise is rejected. Called with a
  module that has an implementation, it is fulfilled. Otherwise a listener of
  \<^verbatim>\<open>moduleRegister\<close> is registered, which holds the module it was given; the model keeps
  the dependencies of that module, the one field the listener reads. Called with an
  inherited object, the listener is registered and throws whenever it is called
  (\<^verbatim>\<open>e.dependencies.length\<close>).
\<close>

datatype waiter = Satisfied | Failed error | Listening "string list" | Broken

definition waitForImplementation :: "descriptor property \<Rightarrow> waiter" where
  "waitForImplementation e =
     (case e of
        Missing \<Rightarrow> Failed TypeError
      | Inherited b \<Rightarrow> Broken
      | Own d \<Rightarrow> if truthy (implementation d) then Satisfied else Listening (dependencies d))"

text \<open>
  A promise of the loader as it stands: fulfilled, rejected, waiting for the scripts of
  the URLs to load (to go on with the ordering then), or waiting for the promises of
  \<^verbatim>\<open>_waitForImplementation\<close> collected in \<^verbatim>\<open>Promise.all\<close>.
\<close>

datatype promise =
    Fulfilled
  | Rejected error
  | Fetching "string list" "string list"
  | Awaiting "waiter list"

text \<open>
  \<^verbatim>\<open>Promise.all(r).then(function(e){n(e)})\<close> inside \<^verbatim>\<open>_waitForImplementations\<close>: the promise
  of \<^verbatim>\<open>_waitForImplementations\<close> is fulfilled once every promise of \<open>r\<close> is. There is no
  handler for a rejection: with a rejected promise among them it stays as it is.
\<close>

definition promiseAll :: "waiter list \<Rightarrow> promise" where
  "promiseAll r = (if list_all (\<lambda>w. w = Satisfied) r then Fulfilled else Awaiting r)"

text \<open>
  The element \<^verbatim>\<open>o[s]\<close> of an array as a key: beyond the end of the array it is
  \<^verbatim>\<open>undefined\<close>, which reads \<^verbatim>\<open>"undefined"\<close>.
\<close>

definition elementKey :: "string list \<Rightarrow> nat \<Rightarrow> string" where
  "elementKey xs s = (if s < length xs then xs ! s else ''undefined'')"

text \<open>
  The loop of \<^verbatim>\<open>_waitForImplementations(e)\<close>,
  \<^verbatim>\<open>for (s = 0; s < e.length; s++) r.push(t._waitForImplementation(i[o[s]]))\<close>: one turn for
  every element of the ordering \<open>e\<close> (the fourth argument: what is left of it), reading
  the array \<open>o\<close> of the modules without implementation at the index \<open>s\<close>.
\<close>

fun waitLoop ::
  "(string \<rightharpoonup> descriptor) \<Rightarrow> string list \<Rightarrow> nat \<Rightarrow> string list \<Rightarrow> waiter list \<Rightarrow> waiter list" where
  "waitLoop ms noImpl s [] r = r"
| "waitLoop ms noImpl s (x # rest) r =
     waitLoop ms noImpl (s + 1) rest
       (r @ [waitForImplementation (getProperty ms (elementKey noImpl s))])"

definition waitForImplementations :: "string list \<Rightarrow> state \<Rightarrow> promise" where
  "waitForImplementations ordered st =
     (let noImpl = filterModulesNoImpl (modules st) ordered []
      in if noImpl \<noteq> [] then promiseAll (waitLoop (modules st) noImpl 0 ordered [])
         else Fulfilled)"

text \<open>
  \<^verbatim>\<open>_loadModules(ordered)\<close>: with modules to fetch, the URLs are built (an error thrown
  rejects the promise) and the promise waits for the scripts; without, it is the
  promise of \<^verbatim>\<open>_waitForImplementations\<close>.
\<close>

definition loadModules :: "config \<Rightarrow> string list \<Rightarrow> state \<Rightarrow> promise \<times> state" where
  "loadModules cfg ordered st =
     (let r = filterNotLoadedModules st ordered []
      in if r \<noteq> [] then
           (case build cfg r st of
              Inl (err, st') \<Rightarrow> (Rejected err, st')
            | Inr (urls, st') \<Rightarrow> (Fetching urls ordered, st'))
         else (waitForImplementations ordered st, st))"

text \<open>
  \<^verbatim>\<open>require(names, success, failure)\<close> with the names given as an array: the chain
  \<^verbatim>\<open>_resolveDependencies(t).then(_loadModules)\<close> as it stands once \<^verbatim>\<open>_loadModules\<close> has
  been called (on the registry the builder left: nothing else runs in between), and the
  two handlers of the \<^verbatim>\<open>then\<close> that ends it, run on the registry as it is when the chain
  has settled. The value of the handlers is what the callback that was called returned,
  \<open>None\<close> when none was called.
\<close>

definition require ::
  "config \<Rightarrow> nat \<Rightarrow> string list \<Rightarrow> state \<Rightarrow> (promise \<times> state) option" where
  "require cfg fuel requested st =
     (case loaderResolveDependencies fuel requested st of
        None \<Rightarrow> None
      | Some (Inl err, st1) \<Rightarrow> Some (Rejected err, st1)
      | Some (Inr ordered, st1) \<Rightarrow> Some (loadModules cfg ordered st1))"

definition requireSettled ::
  "string list \<Rightarrow> (jsval list \<Rightarrow> 'r) option \<Rightarrow> (error \<Rightarrow> 'r) option \<Rightarrow> promise \<Rightarrow> state
     \<Rightarrow> 'r option" where
  "requireSettled requested success failure p st =
     (case p of
        Fulfilled \<Rightarrow> requireFulfilled requested success st
      | Rejected err \<Rightarrow> (case failure of None \<Rightarrow> None | Some g \<Rightarrow> Some (g err))
      | Fetching urls ordered \<Rightarrow> None
      | Awaiting r \<Rightarrow> None)"

text \<open>
  One emission of \<^verbatim>\<open>moduleRegister\<close> (the last statement of \<^verbatim>\<open>_registerModule\<close>), as the
  listeners of one call of \<^verbatim>\<open>_waitForImplementations\<close> see it, in the order of their
  registration: a listener fulfils its promise when \<^verbatim>\<open>_checkModuleDependencies\<close> of the
  module it holds is true on the registry of that moment; a listener that throws ends
  the emission, and those after it are not called.
\<close>

fun notify :: "(string \<rightharpoonup> descriptor) \<Rightarrow> waiter list \<Rightarrow> waiter list" where
  "notify ms [] = []"
| "notify ms (Listening deps # ws) =
     (case checkModuleDependencies ms deps of
        Inl err \<Rightarrow> Listening deps # ws
      | Inr ready \<Rightarrow> (if ready then Satisfied else Listening deps) # notify ms ws)"
| "notify ms (Broken # ws) = Broken # ws"
| "notify ms (Satisfied # ws) = Satisfied # notify ms ws"
| "notify ms (Failed err # ws) = Failed err # notify ms ws"

text \<open>
  What happens to a promise of \<^verbatim>\<open>_loadModules\<close> after the call: the scripts have all
  loaded and \<^verbatim>\<open>_waitForImplementations\<close> is called, on the registry of that moment; a
  script has failed to load (\<^verbatim>\<open>onerror\<close>), which rejects the promise; or a module has
  been registered and \<^verbatim>\<open>moduleRegister\<close> is emitted, on the registry of that moment. A
  settled promise stays as it is.
\<close>

datatype event = ScriptsLoaded state | ScriptFailed string | ModuleRegister state

fun advance :: "event \<Rightarrow> promise \<Rightarrow> promise" where
  "advance (ScriptsLoaded st) (Fetching urls ordered) = waitForImplementations ordered st"
| "advance (ScriptFailed u) (Fetching urls ordered) = Rejected (FetchError u)"
| "advance (ModuleRegister st) (Awaiting r) = promiseAll (notify (modules st) r)"
| "advance ev p = p"

section \<open>Notions used in the statements\<close>

subsection \<open>Modules and their paths\<close>

text \<open>The implementation the registry holds for a name, \<^verbatim>\<open>undefined\<close> when it holds none.\<close>

definition implementationOf :: "state \<Rightarrow> string \<Rightarrow> jsval" where
  "implementationOf st r = (case modules st r of None \<Rightarrow> Undefined | Some d \<Rightarrow> implementation d)"

text \<open>The path \<^verbatim>\<open>_getModulePath\<close> gives the module registered under a name.\<close>

definition pathOf :: "state \<Rightarrow> string \<Rightarrow> string" where
  "pathOf st m = (case modules st m of None \<Rightarrow> [] | Some d \<Rightarrow> getModulePath d)"

text \<open>The state after \<^verbatim>\<open>build\<close> has set \<^verbatim>\<open>load\<close> on every module of a list.\<close>

definition markLoaded :: "string list \<Rightarrow> state \<Rightarrow> state" where
  "markLoaded ms st = fold (\<lambda>m. updateDescriptor m (\<lambda>d. d\<lparr>load := True\<rparr>)) ms st"

subsection \<open>The flags of a pass\<close>

text \<open>The names whose descriptor has \<^verbatim>\<open>mark\<close>, \<^verbatim>\<open>tmpMark\<close> (the modules on the path of the
  traversal) or \<^verbatim>\<open>conditionalMark\<close> set.\<close>

definition marked :: "state \<Rightarrow> string set" where
  "marked st = {k. \<exists>d. modules st k = Some d \<and> mark d}"

definition tmpMarked :: "state \<Rightarrow> string set" where
  "tmpMarked st = {k. \<exists>d. modules st k = Some d \<and> tmpMark d}"

definition condMarked :: "state \<Rightarrow> string set" where
  "condMarked st = {k. \<exists>d. modules st k = Some d \<and> conditionalMark d}"

definition flagsClear :: "(string \<rightharpoonup> descriptor) \<Rightarrow> bool" where
  "flagsClear ms \<longleftrightarrow> (\<forall>k d. ms k = Some d \<longrightarrow> \<not> mark d \<and> \<not> tmpMark d \<and> \<not> conditionalMark d)"

text \<open>The state between two passes: no flag set, and \<^verbatim>\<open>_result\<close> empty.\<close>

definition clean :: "state \<Rightarrow> bool" where
  "clean st \<longleftrightarrow> flagsClear (modules st) \<and> result st = []"

text \<open>The registry with the three flags of every descriptor put back to false.\<close>

definition base :: "(string \<rightharpoonup> descriptor) \<Rightarrow> (string \<rightharpoonup> descriptor)" where
  "base ms = map_option clearFlags \<circ> ms"

text \<open>The state an outcome carries, thrown or returned.\<close>

definition stateOf :: "outcome \<Rightarrow> state" where
  "stateOf r = (case r of Inl (e, s) \<Rightarrow> s | Inr s \<Rightarrow> s)"

text \<open>What a step of a pass leaves alone: the registry up to the three flags, and the index.\<close>

definition sameRegistry :: "state \<Rightarrow> state \<Rightarrow> bool" where
  "sameRegistry st st' \<longleftrightarrow>
     base (modules st') = base (modules st) \<and> conditionalModules st' = conditionalModules st"

subsection \<open>The graph of a registry\<close>

text \<open>The dependencies of a module that are names of modules, and the graph they form.\<close>

definition depsOf :: "(string \<rightharpoonup> descriptor) \<Rightarrow> string \<Rightarrow> string list" where
  "depsOf ms k =
     (case ms k of None \<Rightarrow> [] | Some d \<Rightarrow> filter (\<lambda>x. x \<noteq> ''exports'') (dependencies d))"

definition depRel :: "(string \<rightharpoonup> descriptor) \<Rightarrow> (string \<times> string) set" where
  "depRel ms = {(a, b). b \<in> set (depsOf ms a)}"

text \<open>The modules a trigger activates: those listed under it whose test holds.\<close>

definition activated ::
  "(string \<rightharpoonup> descriptor) \<Rightarrow> (string \<rightharpoonup> string list) \<Rightarrow> string \<Rightarrow> string set" where
  "activated ms idx k =
     {c. \<exists>t d cnd. idx k = Some t \<and> c \<in> set t \<and> ms c = Some d \<and> condition d = Some cnd \<and> test cnd}"

definition edges :: "(string \<rightharpoonup> descriptor) \<Rightarrow> (string \<rightharpoonup> string list) \<Rightarrow> (string \<times> string) set" where
  "edges ms idx = depRel ms \<union> {(k, c). c \<in> activated ms idx k}"

text \<open>
  The modules a request reaches: through dependencies, and from a trigger to the modules
  it activates.
\<close>

definition reachable ::
  "(string \<rightharpoonup> descriptor) \<Rightarrow> (string \<rightharpoonup> string list) \<Rightarrow> string list \<Rightarrow> string set" where
  "reachable ms idx request = (edges ms idx)\<^sup>* `` set request"

definition dependencyFirst :: "(string \<rightharpoonup> descriptor) \<Rightarrow> string list \<Rightarrow> bool" where
  "dependencyFirst ms out \<longleftrightarrow>
     (\<forall>i<length out. \<forall>d\<in>set (depsOf ms (out ! i)). \<exists>j<i. out ! j = d)"

subsection \<open>Well-formed registries\<close>

text \<open>Every descriptor is stored under its own name, as \<^verbatim>\<open>addModule\<close> stores it.\<close>

definition namesOk :: "(string \<rightharpoonup> descriptor) \<Rightarrow> bool" where
  "namesOk ms \<longleftrightarrow> (\<forall>k d. ms k = Some d \<longrightarrow> name d = k)"

text \<open>Every dependency that is a module name is registered.\<close>

definition closedDeps :: "(string \<rightharpoonup> descriptor) \<Rightarrow> bool" where
  "closedDeps ms \<longleftrightarrow> (\<forall>k. set (depsOf ms k) \<subseteq> dom ms)"

text \<open>Every name the index lists is registered and has a condition.\<close>

definition indexOk :: "(string \<rightharpoonup> descriptor) \<Rightarrow> (string \<rightharpoonup> string list) \<Rightarrow> bool" where
  "indexOk ms idx \<longleftrightarrow>
     (\<forall>k t c. idx k = Some t \<longrightarrow> c \<in> set t \<longrightarrow> (\<exists>d. ms c = Some d \<and> condition d \<noteq> None))"

text \<open>
  The names every object inherits from \<^verbatim>\<open>Object.prototype\<close>; and: no module is registered
  under one of them.
\<close>

definition inheritedNames :: "string list" where
  "inheritedNames = map fst objectPrototype"

definition plainNames :: "(string \<rightharpoonup> descriptor) \<Rightarrow> bool" where
  "plainNames ms \<longleftrightarrow> dom ms \<inter> set inheritedNames = {}"

text \<open>
  The registry a pass can run on without a TypeError: finitely many modules, each stored
  under its name, none under an inherited name, with every dependency and every name
  of the index registered.
\<close>

definition wellFormed :: "state \<Rightarrow> bool" where
  "wellFormed st \<longleftrightarrow>
     finite (dom (modules st)) \<and> namesOk (modules st) \<and> closedDeps (modules st)
     \<and> indexOk (modules st) (conditionalModules st) \<and> plainNames (modules st)"

text \<open>
  Every registered module with a condition is listed under its trigger, as
  \<^verbatim>\<open>_registerConditionalModule\<close> lists it when the module is added.
\<close>

definition indexed :: "state \<Rightarrow> bool" where
  "indexed st \<longleftrightarrow>
     (\<forall>k d cnd. modules st k = Some d \<longrightarrow> condition d = Some cnd
        \<longrightarrow> (\<exists>t. conditionalModules st (trigger cnd) = Some t \<and> k \<in> set t))"

subsection \<open>The progress of a pass\<close>

text \<open>The queue grows at its end, by names of modules that were not in it, each once.\<close>

definition extends :: "string set \<Rightarrow> string list \<Rightarrow> string list \<Rightarrow> bool" where
  "extends known q q' \<longleftrightarrow>
     (\<exists>more. q' = q @ more \<and> distinct more \<and> set more \<inter> set q = {} \<and> set more \<subseteq> known)"

text \<open>From one point of a pass to a later one: marks are only added, queue and result
  only grow; between the start and the end of a visit the path is the same as well.\<close>

definition grows :: "state \<Rightarrow> state \<Rightarrow> bool" where
  "grows st st' \<longleftrightarrow>
     sameRegistry st st' \<and> marked st \<subseteq> marked st' \<and> condMarked st \<subseteq> condMarked st'
     \<and> extends (dom (modules st)) (queue st) (queue st')
     \<and> (\<exists>new. result st' = new @ result st)"

definition frame :: "state \<Rightarrow> state \<Rightarrow> bool" where
  "frame st st' \<longleftrightarrow> grows st st' \<and> tmpMarked st' = tmpMarked st"

text \<open>
  Between two steps of a pass: the marked modules are those of \<^verbatim>\<open>_result\<close>, each once and
  after its dependencies were put there; no module is marked and on the path at once;
  the modules a processed trigger activates are queued; and every module marked or on
  the path has had its trigger list processed.
\<close>

definition passInv :: "state \<Rightarrow> bool" where
  "passInv st \<longleftrightarrow>
     namesOk (modules st) \<and> marked st = set (result st) \<and> distinct (result st)
     \<and> marked st \<inter> tmpMarked st = {}
     \<and> (\<forall>xs m ys. result st = xs @ m # ys \<longrightarrow> set (depsOf (modules st) m) \<subseteq> set ys)
     \<and> (\<forall>k\<in>condMarked st. activated (modules st) (conditionalModules st) k \<subseteq> set (queue st))
     \<and> (\<forall>k\<in>marked st \<union> tmpMarked st. conditionalModules st k = None \<or> k \<in> condMarked st)"

text \<open>The modules a visit can still go into, and the fuel a pass needs at most.\<close>

definition unvisited :: "state \<Rightarrow> string set" where
  "unvisited st = dom (modules st) - marked st - tmpMarked st"

definition fuelBound :: "nat \<Rightarrow> state \<Rightarrow> nat" where
  "fuelBound t st =
     (length (queue st) - t) + card (dom (modules st) - set (queue st)) + card (dom (modules st))"

text \<open>The cycle error, naming a module that depends on itself through some chain; an
  outcome that is a return or such an error.\<close>

definition cycleError :: "state \<Rightarrow> error \<Rightarrow> bool" where
  "cycleError st e \<longleftrightarrow> (\<exists>m. e = CycleError m \<and> (m, m) \<in> (depRel (modules st))\<^sup>+)"

definition genuine :: "state \<Rightarrow> outcome \<Rightarrow> bool" where
  "genuine st r = (case r of Inl (e, s) \<Rightarrow> cycleError st e | Inr s \<Rightarrow> True)"

subsection \<open>Listeners that keep a record\<close>

text \<open>
  A listener that, when called, writes its own identity at the end of a log and does to
  the emitter what \<open>act\<close> says: any sequence of calls of \<^verbatim>\<open>on\<close> and \<^verbatim>\<open>off\<close>, for itself
  or for others. It returns.
\<close>

definition recording ::
  "(nat \<Rightarrow> 'p \<Rightarrow> emitter \<Rightarrow> emitter) \<Rightarrow> nat \<Rightarrow> 'p \<Rightarrow> emitter \<times> nat list
     \<Rightarrow> (error \<times> emitter \<times> nat list) + emitter \<times> nat list" where
  "recording act r arg w = Inr (act r arg (fst w), snd w @ [r])"

text \<open>The same, where listener \<open>0\<close> throws once it has written the log.\<close>

definition throwingFirst ::
  "nat \<Rightarrow> 'p \<Rightarrow> emitter \<times> nat list \<Rightarrow> (error \<times> emitter \<times> nat list) + emitter \<times> nat list" where
  "throwingFirst r arg w =
     (if r = 0 then Inl (TypeError, fst w, snd w @ [r]) else Inr (fst w, snd w @ [r]))"

text \<open>
  What \<^verbatim>\<open>on\<close> and \<^verbatim>\<open>off\<close> leave of the emitter: unchanged when they throw (\<^verbatim>\<open>on\<close> has
  by then stored the inherited object under the name it was inherited under, which no
  lookup can tell from inheriting it).
\<close>

definition after :: "emitter \<Rightarrow> error + emitter \<Rightarrow> emitter" where
  "after events r = (case r of Inl e \<Rightarrow> events | Inr events' \<Rightarrow> events')"

text \<open>A listener that registers listener 7 for the event \<^verbatim>\<open>e\<close> and removes listener 1.\<close>

definition removingOne :: "nat \<Rightarrow> unit \<Rightarrow> emitter \<Rightarrow> emitter" where
  "removingOne r a events =
     (let events' = after events (on ''e'' 7 events)
      in after events' (off ''e'' 1 events'))"

subsection \<open>The promises of a request as events go by\<close>

definition advanceAll :: "event list \<Rightarrow> promise \<Rightarrow> promise" where
  "advanceAll evs p = fold advance evs p"

subsection \<open>Example registries\<close>

text \<open>
  A configuration is the list of the entries of its \<^verbatim>\<open>modules\<close> object; \<open>configured\<close> is
  the registry the ConfigParser builds from it.
\<close>

definition configured :: "(string \<times> descriptor) list \<Rightarrow> state" where
  "configured cfg = stateOf (parseModules cfg emptyState)"

definition exampleConfig :: "bool \<Rightarrow> config" where
  "exampleConfig c = \<lparr>basePath = ''/base'', url = ''http://h/combo'', combine = c\<rparr>"

definition exampleRegistry :: state where
  "exampleRegistry = configured [(''mod1'', emptyDescriptor), (''mod2'', emptyDescriptor)]"

definition implementedRegistry :: state where
  "implementedRegistry =
     stateOf (addModule (emptyDescriptor\<lparr>name := ''a/c'', implementation := Object 1\<rparr>) emptyState)"

definition danglingRegistry :: state where
  "danglingRegistry = configured [(''app'', emptyDescriptor\<lparr>dependencies := [''b'']\<rparr>)]"

definition constructorRegistry :: state where
  "constructorRegistry = configured [(''constructor'', emptyDescriptor)]"

definition exampleModules :: state where
  "exampleModules =
     configured
       [(''app'', emptyDescriptor\<lparr>dependencies := [''util'', ''exports'']\<rparr>),
        (''util'', emptyDescriptor\<lparr>dependencies := [''./core'']\<rparr>),
        (''core'', emptyDescriptor),
        (''extra'', emptyDescriptor\<lparr>dependencies := [''core''],
                      condition := Some \<lparr>trigger = ''app'', test = True\<rparr>\<rparr>)]"

definition cyclicModules :: state where
  "cyclicModules =
     configured
       [(''ping'', emptyDescriptor\<lparr>dependencies := [''pong'']\<rparr>),
        (''pong'', emptyDescriptor\<lparr>dependencies := [''ping'']\<rparr>)]"

definition brokenCycle :: state where
  "brokenCycle =
     configured [(''ping'', emptyDescriptor\<lparr>dependencies := [''ghost'', ''ping'']\<rparr>)]"

text \<open>
  The two modules that depend on each other, with \<^verbatim>\<open>mark: true\<close> on \<^verbatim>\<open>ping\<close>, as the
  descriptor of a configuration may carry it.
\<close>

definition staleCycle :: state where
  "staleCycle = updateDescriptor ''ping'' (\<lambda>d. d\<lparr>mark := True\<rparr>) cyclicModules"

definition conditionalExample :: state where
  "conditionalExample =
     configured
       [(''main'', emptyDescriptor),
        (''shim'', emptyDescriptor\<lparr>condition := Some \<lparr>trigger = ''main'', test = True\<rparr>\<rparr>),
        (''idle'', emptyDescriptor\<lparr>condition := Some \<lparr>trigger = ''main'', test = False\<rparr>\<rparr>)]"

definition conditionalDangling :: state where
  "conditionalDangling =
     configured
       [(''main'', emptyDescriptor\<lparr>dependencies := [''ghost'']\<rparr>),
        (''shim'', emptyDescriptor\<lparr>condition := Some \<lparr>trigger = ''main'', test = True\<rparr>\<rparr>)]"

definition implementedModules :: state where
  "implementedModules =
     configured
       [(''lib'', emptyDescriptor\<lparr>implementation := Object 1\<rparr>),
        (''app'', emptyDescriptor\<lparr>dependencies := [''lib''], implementation := Object 2\<rparr>)]"

text \<open>
  A page whose configuration lists \<^verbatim>\<open>lib\<close>, \<^verbatim>\<open>app\<close> (which depends on \<^verbatim>\<open>lib\<close>) and \<^verbatim>\<open>solo\<close>:
  as configured; after \<^verbatim>\<open>define("lib", [], factory)\<close>; after a first
  \<^verbatim>\<open>require(["app", "solo"])\<close>, whose two scripts are being fetched; and after the
  script of \<^verbatim>\<open>app\<close> has run \<^verbatim>\<open>define("app", ["lib"], factory)\<close>.
\<close>

definition pageConfigured :: state where
  "pageConfigured =
     configured
       [(''lib'', emptyDescriptor),
        (''app'', emptyDescriptor\<lparr>dependencies := [''lib'']\<rparr>),
        (''solo'', emptyDescriptor)]"

definition pageLibDefined :: state where
  "pageLibDefined =
     (case loaderDefine ''lib'' [] (\<lambda>args. Object 1) None pageConfigured of
        Inr (Registered s) \<Rightarrow> s
      | Inr (Waiting d) \<Rightarrow> pageConfigured
      | Inl (err, s) \<Rightarrow> s)"

definition pageFetching :: state where
  "pageFetching =
     (case require (exampleConfig False) 8 [''app'', ''solo''] pageLibDefined of
        Some (p, s) \<Rightarrow> s
      | None \<Rightarrow> pageLibDefined)"

definition pageAppDefined :: state where
  "pageAppDefined =
     (case loaderDefine ''app'' [''lib''] (\<lambda>args. Object 2) None pageFetching of
        Inr (Registered s) \<Rightarrow> s
      | Inr (Waiting d) \<Rightarrow> pageFetching
      | Inl (err, s) \<Rightarrow> s)"

section \<open>Plain objects: what a lookup finds\<close>

lemma set_inheritedNames: "set inheritedNames = fst ` set objectPrototype"
  by (simp add: inheritedNames_def)

lemma inherited_iff: "k \<in> set inheritedNames \<longleftrightarrow> (\<exists>b. map_of objectPrototype k = Some b)"
  using map_of_eq_None_iff [of objectPrototype k] by (auto simp: set_inheritedNames)

lemma getProperty_Some [simp]: "table k = Some v \<Longrightarrow> getProperty table k = Own v"
  by (simp add: getProperty_def)

lemma getProperty_Own_iff: "getProperty table k = Own v \<longleftrightarrow> table k = Some v"
  by (auto simp: getProperty_def split: option.splits)

lemma getProperty_Missing_iff:
  "getProperty table k = Missing \<longleftrightarrow> table k = None \<and> k \<notin> set inheritedNames"
  by (auto simp: getProperty_def inherited_iff split: option.splits)

lemma getProperty_Inherited:
  assumes "getProperty table k = Inherited b"
  shows "table k = None" and "k \<in> set inheritedNames"
  using assms by (auto simp: getProperty_def inherited_iff split: option.splits)

lemma getProperty_plain:
  assumes "k \<notin> set inheritedNames"
  shows "getProperty table k = (case table k of Some v \<Rightarrow> Own v | None \<Rightarrow> Missing)"
  using assms by (auto simp: getProperty_def inherited_iff split: option.splits)

lemma stateOf_simps [simp]: "stateOf (Inl (e, s)) = s" "stateOf (Inr s) = s"
  by (simp_all add: stateOf_def)

section \<open>PathResolver: the stated examples\<close>

lemma split_ab: "split CHR ''/'' ''a/b'' = [''a'', ''b'']"
  by simp

text \<open>
  C4 (counterexample). The third example of the claim fails: resolving \<^verbatim>\<open>"../../x"\<close>
  relative to \<^verbatim>\<open>"a/b"\<close> yields \<^verbatim>\<open>"../x"\<close>, not \<^verbatim>\<open>"x"\<close>: the \<^verbatim>\<open>".."\<close> that finds the base
  empty is itself kept.
\<close>

theorem resolvePath_pop_exceeds_counterexample:
  "resolvePath ''a/b'' ''../../x'' \<noteq> ''x''"
  by (simp add: resolvePath_def)

text \<open>
  C4 (as amended). Resolving \<^verbatim>\<open>"./x"\<close> relative to \<^verbatim>\<open>"a/b"\<close> yields \<^verbatim>\<open>"a/x"\<close>; resolving
  \<^verbatim>\<open>"../x"\<close> yields \<^verbatim>\<open>"x"\<close>; resolving \<^verbatim>\<open>"../../x"\<close> yields \<^verbatim>\<open>"../x"\<close>: when a \<^verbatim>\<open>".."\<close>
  meets an empty base, that segment and the directory segments after it are appended
  verbatim, then the basename.
\<close>

theorem resolvePath_examples:
  "resolvePath ''a/b'' ''./x'' = ''a/x''
   \<and> resolvePath ''a/b'' ''../x'' = ''x''
   \<and> resolvePath ''a/b'' ''../../x'' = ''../x''
   \<and> (\<forall>rest. walkSegments [] (''..'' # rest) = ''..'' # rest)"
  by (simp add: resolvePath_def)

section \<open>EventEmitter: what one emission calls\<close>

lemma emitLoop_recording:
  "emitLoop (recording act) n arg (events, log)
     = Inr (fold (\<lambda>r. act r arg) n events, log @ n)"
  by (induction n arbitrary: events log) (simp_all add: recording_def)

text \<open>
  C10 (as amended). For an event that has listeners registered, each of which returns
  when it is called: whatever the listeners do to the emitter while they run (\<^verbatim>\<open>on\<close>,
  \<^verbatim>\<open>off\<close>, of themselves or of others), \<^verbatim>\<open>emit\<close> calls exactly the listeners that were
  registered for the event when it was called, each once and in the order of their
  registration. Here every listener writes down its own call: after the emission the
  log has grown by the list of listeners as it stood at the call, and the emitter is
  what the calls, one after the other, have made of it.
\<close>

theorem emit_calls_snapshot:
  assumes "events event = Some n"
  shows "emit (recording act) event arg (events, log)
           = Inr (fold (\<lambda>r. act r arg) n events, log @ n)"
  using assms by (simp add: emit_def emitLoop_recording)

lemma removingOne_step:
  "table ''e'' = Some n \<Longrightarrow> removingOne r a table = table(''e'' \<mapsto> remove1 1 (n @ [7]))"
  by (simp add: removingOne_def on_def off_def after_def Let_def remove1_append)

text \<open>
  Witness of C10: three listeners, each of which registers listener 7 and removes
  listener 1 when it is called. Listener 1 is called all the same, listener 7 is not,
  and the emitter afterwards holds the changes.
\<close>

theorem emit_calls_snapshot_witness:
  "[''e'' \<mapsto> [0, 1, 2]] ''e'' = Some [0, 1, 2]
   \<and> emit (recording removingOne) ''e'' () ([''e'' \<mapsto> [0, 1, 2]], [])
       = Inr ([''e'' \<mapsto> [0, 2, 7, 7, 7]], [0, 1, 2])"
  using emit_calls_snapshot [of "[''e'' \<mapsto> [0, 1, 2]]" "''e''" "[0, 1, 2]" removingOne "()" "[]"]
  by (simp add: removingOne_step)

text \<open>
  C10 (counterexample). For the event name \<^verbatim>\<open>toString\<close>, which no listener was or can be
  registered for (\<^verbatim>\<open>on\<close> throws as well), \<^verbatim>\<open>emit\<close> throws a TypeError: the lookup in
  \<^verbatim>\<open>_events\<close> finds the inherited function. And a listener that throws ends the
  emission: of the two listeners registered, the second is not called.
\<close>

theorem emit_inherited_counterexample:
  "emit (recording (\<lambda>r a table. table)) ''toString'' () (Map.empty, [])
     = Inl (TypeError, Map.empty, [])
   \<and> on ''toString'' 0 Map.empty = Inl TypeError
   \<and> emit throwingFirst ''e'' () ([''e'' \<mapsto> [0, 1]], []) = Inl (TypeError, [''e'' \<mapsto> [0, 1]], [0])"
  by (simp add: emit_def on_def getProperty_def objectPrototype_def throwingFirst_def)

section \<open>Loader: the loop that collects the implementations\<close>

lemma addImplementationsLoop_map:
  "addImplementationsLoop ms rs acc
     = acc @ map (\<lambda>r. case ms r of None \<Rightarrow> Undefined | Some d \<Rightarrow> implementation d) rs"
proof (induction rs arbitrary: acc)
  case Nil
  then show ?case by simp
next
  case (Cons r rs)
  have "(case getProperty ms r of Own d \<Rightarrow> implementation d | Inherited b \<Rightarrow> Undefined
          | Missing \<Rightarrow> Undefined)
        = (case ms r of None \<Rightarrow> Undefined | Some d \<Rightarrow> implementation d)"
    by (simp add: getProperty_def split: option.splits)
  with Cons show ?case by simp
qed

section \<open>URLBuilder: the URLs of a list without full paths\<close>

lemma modules_set_load:
  "modules (updateDescriptor m (\<lambda>d. d\<lparr>load := True\<rparr>) st) k
     = (if k = m then map_option (\<lambda>d. d\<lparr>load := True\<rparr>) (modules st k) else modules st k)"
  by (simp add: updateDescriptor_def split: option.splits)

lemma getModulePath_set_load [simp]: "getModulePath (d\<lparr>load := True\<rparr>) = getModulePath d"
  by (simp add: getModulePath_def)

lemma pathOf_set_load [simp]:
  "pathOf (updateDescriptor m (\<lambda>d. d\<lparr>load := True\<rparr>) st) = pathOf st"
  by (rule ext) (simp add: pathOf_def modules_set_load split: option.splits)

lemma buildLoop_no_fullPath:
  assumes "\<forall>m\<in>set ms. \<exists>d. modules st m = Some d \<and> \<not> truthyString (fullPath d)"
  shows "buildLoop cfg ms buffer urls st
           = Inr (if combine cfg then buffer @ map (pathOf st) ms else buffer,
                  if combine cfg then urls
                  else urls @ map (\<lambda>m. url cfg @ normalizedBasePath cfg @ pathOf st m) ms,
                  markLoaded ms st)"
  using assms
proof (induction ms arbitrary: buffer urls st)
  case Nil
  then show ?case by (simp add: markLoaded_def)
next
  case (Cons m ms)
  let ?st = "updateDescriptor m (\<lambda>d. d\<lparr>load := True\<rparr>) st"
  from Cons.prems obtain u where u: "modules st m = Some u" "\<not> truthyString (fullPath u)"
    by auto
  have rest: "\<forall>k\<in>set ms. \<exists>d. modules ?st k = Some d \<and> \<not> truthyString (fullPath d)"
    using Cons.prems by (auto simp: modules_set_load)
  have p: "getModulePath u = pathOf st m"
    using u by (simp add: pathOf_def)
  show ?case
    using u Cons.IH [OF rest] by (simp add: p markLoaded_def)
qed

lemma markLoaded_load:
  "modules st m = Some d \<Longrightarrow> m \<in> set ms \<or> load d
     \<Longrightarrow> \<exists>d'. modules (markLoaded ms st) m = Some d' \<and> load d'"
proof (induction ms arbitrary: st d)
  case Nil
  then show ?case by (simp add: markLoaded_def)
next
  case (Cons k ms)
  let ?st = "updateDescriptor k (\<lambda>d. d\<lparr>load := True\<rparr>) st"
  have "\<exists>d1. modules ?st m = Some d1 \<and> (m \<in> set ms \<or> load d1)"
    using Cons.prems by (auto simp: modules_set_load)
  then obtain d1 where d1: "modules ?st m = Some d1" "m \<in> set ms \<or> load d1"
    by blast
  from Cons.IH [OF this] show ?case by (simp add: markLoaded_def)
qed

text \<open>
  C5 (as amended). For every list of registered modules that is not empty and in which
  no module has a full path: with \<^verbatim>\<open>combine\<close> on, \<^verbatim>\<open>build\<close> returns the one URL
  \<^verbatim>\<open>url + "?" + b + path1 + "&" + b + path2 + ...\<close>; with \<^verbatim>\<open>combine\<close> off it returns
  \<^verbatim>\<open>url + b + path\<close> for each module, in the order of the list. Here \<open>b\<close> is the base
  path with \<^verbatim>\<open>"/"\<close> appended unless it ends in one. Every listed module is marked as
  loading.
\<close>

theorem build_urls:
  assumes "ms \<noteq> []"
    and "\<forall>m\<in>set ms. \<exists>d. modules st m = Some d \<and> \<not> truthyString (fullPath d)"
  shows "\<exists>st'. build cfg ms st
            = Inr (if combine cfg
                   then [url cfg @ ''?'' @ normalizedBasePath cfg
                           @ join (''&'' @ normalizedBasePath cfg) (map (pathOf st) ms)]
                   else map (\<lambda>m. url cfg @ normalizedBasePath cfg @ pathOf st m) ms, st')
          \<and> (\<forall>m\<in>set ms. \<exists>d. modules st' m = Some d \<and> load d)"
proof -
  have "\<forall>m\<in>set ms. \<exists>d. modules (markLoaded ms st) m = Some d \<and> load d"
    using assms(2) markLoaded_load by blast
  then show ?thesis
    using assms(1) by (simp add: build_def buildLoop_no_fullPath [OF assms(2)])
qed

lemma addModule_plain:
  assumes "condition e = None"
  shows "addModule e st
           = Inr (st\<lparr>modules := (modules st)(name e \<mapsto> resolveDescriptorPaths e)\<rparr>)"
  using assms
  by (simp add: addModule_def registerConditionalModule_def resolveDescriptorPaths_def Let_def)

lemma exampleRegistry_modules:
  "modules exampleRegistry = [''mod1'' \<mapsto> emptyDescriptor\<lparr>name := ''mod1''\<rparr>, ''mod2'' \<mapsto> emptyDescriptor\<lparr>name := ''mod2''\<rparr>]"
  by (simp add: exampleRegistry_def configured_def emptyState_def addModule_plain
      resolveDescriptorPaths_def emptyDescriptor_def)

lemma exampleConfig_fields:
  "url (exampleConfig c) = ''http://h/combo''" "combine (exampleConfig c) = c"
  "basePath (exampleConfig c) = ''/base''" "normalizedBasePath (exampleConfig c) = ''/base/''"
  by (simp_all add: normalizedBasePath_def exampleConfig_def)

text \<open>Witness of C5: two modules under the base path \<^verbatim>\<open>/base\<close>, combined and not.\<close>

theorem build_urls_witness:
  "[''mod1'', ''mod2''] \<noteq> []
   \<and> (\<exists>st'. build (exampleConfig True) [''mod1'', ''mod2''] exampleRegistry
              = Inr ([''http://h/combo?/base/mod1.js&/base/mod2.js''], st'))
   \<and> (\<exists>st'. build (exampleConfig False) [''mod1'', ''mod2''] exampleRegistry
              = Inr ([''http://h/combo/base/mod1.js'', ''http://h/combo/base/mod2.js''], st'))"
proof -
  have h: "\<forall>m\<in>set [''mod1'', ''mod2'']. \<exists>d. modules exampleRegistry m = Some d \<and> \<not> truthyString (fullPath d)"
    by (simp add: exampleRegistry_modules emptyDescriptor_def truthyString_def)
  have p: "map (pathOf exampleRegistry) [''mod1'', ''mod2''] = [''mod1.js'', ''mod2.js'']"
    by (simp add: pathOf_def exampleRegistry_modules getModulePath_def emptyDescriptor_def
        truthyString_def indexOf_def)
  have "\<exists>st'. build (exampleConfig True) [''mod1'', ''mod2''] exampleRegistry
              = Inr ([''http://h/combo?/base/mod1.js&/base/mod2.js''], st')"
    using build_urls [of "[''mod1'', ''mod2'']" exampleRegistry "exampleConfig True"] h p
    by (auto simp: exampleConfig_fields)
  moreover have "\<exists>st'. build (exampleConfig False) [''mod1'', ''mod2''] exampleRegistry
              = Inr ([''http://h/combo/base/mod1.js'', ''http://h/combo/base/mod2.js''], st')"
    using build_urls [of "[''mod1'', ''mod2'']" exampleRegistry "exampleConfig False"] h p
    by (auto simp: exampleConfig_fields)
  ultimately show ?thesis by simp
qed

text \<open>
  C5 (counterexample). With \<^verbatim>\<open>combine\<close> on, the empty list gives no URL rather than
  one, and under the base path \<^verbatim>\<open>/base\<close> the URL of \<^verbatim>\<open>mod1\<close> has a \<^verbatim>\<open>"/"\<close> between base
  path and module path, which \<^verbatim>\<open>url + "?" + basePath + path\<close> has not.
\<close>

theorem build_counterexample:
  "build (exampleConfig True) [] exampleRegistry = Inr ([], exampleRegistry)
   \<and> (\<exists>st'. build (exampleConfig True) [''mod1''] exampleRegistry
              = Inr ([''http://h/combo?/base/mod1.js''], st'))
   \<and> url (exampleConfig True) @ ''?'' @ basePath (exampleConfig True) @ ''mod1.js''
       = ''http://h/combo?/basemod1.js''"
  by (simp add: build_def exampleConfig_fields exampleRegistry_modules getModulePath_def
      emptyDescriptor_def truthyString_def indexOf_def updateDescriptor_def)

section \<open>URLBuilder: the path of a module\<close>

lemma getModulePath_plain: "getModulePath (emptyDescriptor\<lparr>name := ''abc''\<rparr>) = ''abc.js''"
  by (simp add: getModulePath_def emptyDescriptor_def truthyString_def indexOf_def)

lemma getModulePath_js: "getModulePath (emptyDescriptor\<lparr>name := ''abc.js''\<rparr>) = ''abc.js''"
  by (simp add: getModulePath_def emptyDescriptor_def truthyString_def indexOf_def)

lemma getModulePath_override:
  "getModulePath (emptyDescriptor\<lparr>name := ''abc'', path := Some ''lib/x.js''\<rparr>) = ''lib/x.js''"
  by (simp add: getModulePath_def emptyDescriptor_def truthyString_def)

text \<open>
  C8 (the code at the failing inputs). The test \<^verbatim>\<open>name.indexOf(".js") !== name.length - 3\<close>
  compares the first position of \<^verbatim>\<open>".js"\<close> with the position a suffix would have. For a
  name of two characters without the extension both sides are \<open>-1\<close>, and the name is
  returned without \<^verbatim>\<open>".js"\<close>; for a name that ends in \<^verbatim>\<open>".js"\<close> and has \<^verbatim>\<open>".js"\<close>
  earlier too, the extension is appended again.
\<close>

theorem getModulePath_misses_suffix:
  "getModulePath (emptyDescriptor\<lparr>name := ''ab''\<rparr>) = ''ab''
   \<and> getModulePath (emptyDescriptor\<lparr>name := ''a.js.js''\<rparr>) = ''a.js.js.js''"
  by (simp add: getModulePath_def emptyDescriptor_def truthyString_def indexOf_def)

section \<open>Loader: the dependencies of a defined module\<close>

lemma name_resolveDescriptorPaths [simp]: "name (resolveDescriptorPaths e) = name e"
  by (simp add: resolveDescriptorPaths_def)

lemma dependencies_resolveDescriptorPaths [simp]:
  "dependencies (resolveDescriptorPaths e) = map (resolvePath (name e)) (dependencies e)"
  by (simp add: resolveDescriptorPaths_def)

lemma condition_resolveDescriptorPaths [simp]:
  "condition (resolveDescriptorPaths e) = condition e"
  by (simp add: resolveDescriptorPaths_def)

lemma addModule_Inr:
  assumes "addModule e st = Inr st'"
  shows "modules st' = (modules st)(name e \<mapsto> resolveDescriptorPaths e)"
    and "queue st' = queue st" and "result st' = result st"
    and "registerConditionalModule (resolveDescriptorPaths e) (conditionalModules st)
           = Inr (conditionalModules st')"
  using assms by (auto simp: addModule_def Let_def split: sum.splits)

lemma addModule_Inl:
  assumes "addModule e st = Inl (err, st')"
  shows "st' = st\<lparr>modules := (modules st)(name e \<mapsto> resolveDescriptorPaths e)\<rparr>"
  using assms by (auto simp: addModule_def Let_def split: sum.splits)

lemma registerModule_dependencies:
  assumes "registerModule s st = Inr st'"
  shows "\<exists>d. modules st' (name s) = Some d
           \<and> dependencies d = map (resolvePath (name s)) (dependencies s)"
proof -
  from assms obtain v where "addModule (s\<lparr>implementation := v\<rparr>) st = Inr st'"
    by (auto simp: registerModule_def Let_def split: sum.splits option.splits prod.splits)
  from addModule_Inr(1) [OF this] show ?thesis by simp
qed

lemma loaderDefine_descriptor:
  assumes "loaderDefine n deps factory extra st = Inr (Waiting s)"
  shows "name s = n \<and> dependencies s = map (resolvePath n) deps"
proof -
  define s0 where "s0 = resolveDescriptorPaths
     ((case extra of None \<Rightarrow> emptyDescriptor | Some d \<Rightarrow> d)
        \<lparr>name := n, dependencies := deps, pendingImplementation := Some factory\<rparr>)"
  have s0: "name s0 = n" "dependencies s0 = map (resolvePath n) deps"
    by (simp_all add: s0_def)
  have "s = s0"
    using assms unfolding loaderDefine_def Let_def s0_def [symmetric]
    by (auto split: sum.splits bool.splits if_splits)
  with s0 show ?thesis by simp
qed

text \<open>
  C9. A module declared through \<^verbatim>\<open>define\<close> with name \<open>n\<close> is stored with every
  dependency resolved against \<open>n\<close> twice: once by \<^verbatim>\<open>define\<close>, once more by
  \<^verbatim>\<open>addModule\<close> when \<^verbatim>\<open>_registerModule\<close> stores it, whether the registration happens at
  once or after the wait. A resolved dependency \<^verbatim>\<open>"a/c"\<close> of \<^verbatim>\<open>"a/b"\<close> is stored as
  \<^verbatim>\<open>"a/a/c"\<close>.
\<close>

theorem define_resolves_twice:
  "(loaderDefine n deps factory extra st = Inr (Registered st')
      \<longrightarrow> (\<exists>d. modules st' n = Some d
                \<and> dependencies d = map (\<lambda>x. resolvePath n (resolvePath n x)) deps))
   \<and> (loaderDefine n deps factory extra st = Inr (Waiting s) \<and> registerModule s st2 = Inr st3
      \<longrightarrow> (\<exists>d. modules st3 n = Some d
                \<and> dependencies d = map (\<lambda>x. resolvePath n (resolvePath n x)) deps))
   \<and> resolvePath ''a/b'' ''a/c'' = ''a/a/c''"
proof (intro conjI impI)
  assume a: "loaderDefine n deps factory extra st = Inr (Registered st')"
  define s where "s = resolveDescriptorPaths
     ((case extra of None \<Rightarrow> emptyDescriptor | Some d \<Rightarrow> d)
        \<lparr>name := n, dependencies := deps, pendingImplementation := Some factory\<rparr>)"
  have s: "name s = n" "dependencies s = map (resolvePath n) deps"
    by (simp_all add: s_def)
  have "registerModule s st = Inr st'"
    using a unfolding loaderDefine_def Let_def s_def [symmetric]
    by (auto split: sum.splits bool.splits if_splits)
  from registerModule_dependencies [OF this] s
  show "\<exists>d. modules st' n = Some d
           \<and> dependencies d = map (\<lambda>x. resolvePath n (resolvePath n x)) deps"
    by (simp add: comp_def)
next
  assume a: "loaderDefine n deps factory extra st = Inr (Waiting s) \<and> registerModule s st2 = Inr st3"
  from loaderDefine_descriptor [of n deps factory extra st s] a
  have s: "name s = n" "dependencies s = map (resolvePath n) deps" by auto
  from registerModule_dependencies [of s st2 st3] a s
  show "\<exists>d. modules st3 n = Some d
           \<and> dependencies d = map (\<lambda>x. resolvePath n (resolvePath n x)) deps"
    by (simp add: comp_def)
next
  show "resolvePath ''a/b'' ''a/c'' = ''a/a/c''"
    by (simp add: resolvePath_def)
qed

lemma implementedRegistry_modules:
  "modules implementedRegistry
     = [''a/c'' \<mapsto> emptyDescriptor\<lparr>name := ''a/c'', implementation := Object 1\<rparr>]"
  by (simp add: implementedRegistry_def emptyState_def addModule_plain emptyDescriptor_def
      resolveDescriptorPaths_def)

lemma implementedRegistry_define:
  "\<exists>st'. loaderDefine ''a/b'' [''./c''] (\<lambda>args. Object 2) None implementedRegistry
            = Inr (Registered st')"
  by (simp add: loaderDefine_def implementedRegistry_modules registerModule_def addModule_plain
      resolveDescriptorPaths_def emptyDescriptor_def resolvePath_def Let_def)

text \<open>
  Witness of C9: \<^verbatim>\<open>define("a/b", ["./c"], factory)\<close> where \<^verbatim>\<open>a/c\<close> is implemented.
\<close>

theorem define_resolves_twice_witness:
  "\<exists>st'. loaderDefine ''a/b'' [''./c''] (\<lambda>args. Object 2) None implementedRegistry = Inr (Registered st')
     \<and> (\<exists>d. modules st' ''a/b'' = Some d \<and> dependencies d = [''a/a/c''])"
proof -
  have r: "resolvePath ''a/b'' (resolvePath ''a/b'' ''./c'') = ''a/a/c''"
    by (simp add: resolvePath_def)
  from implementedRegistry_define obtain st' where
    d: "loaderDefine ''a/b'' [''./c''] (\<lambda>args. Object 2) None implementedRegistry
          = Inr (Registered st')" by blast
  from define_resolves_twice [of "''a/b''" "[''./c'']" "\<lambda>args. Object 2" None implementedRegistry st']
    d r
  show ?thesis by auto
qed

section \<open>DependencyBuilder: the cases of one step\<close>

lemma triggersOf_Some: "idx k = Some t \<Longrightarrow> triggersOf idx k = Some t"
  by (simp add: triggersOf_def)

lemma triggersOf_None: "triggersOf idx k = None \<Longrightarrow> idx k = None"
  by (cases "idx k") (simp_all add: triggersOf_def)

lemma triggersOf_plain: "k \<notin> set inheritedNames \<Longrightarrow> triggersOf idx k = idx k"
  by (simp add: triggersOf_def getProperty_plain split: option.splits)

lemma visitInherited_not_Inr [simp]:
  "visitInherited k b st \<noteq> Inr s" "Inr s \<noteq> visitInherited k b st"
  by (auto simp: visitInherited_def split: sum.splits)

lemma visitInherited_Inl: "\<exists>x. visitInherited k b st = Inl x"
  by (auto simp: visitInherited_def split: sum.splits)

lemma visit_inherited:
  assumes "getProperty (modules st) k = Inherited b" "visit n k st = Some r"
  shows "r = visitInherited k b st"
  using assms by (cases n) auto

lemma forEach_Cons_cases:
  assumes "forEach f (x # xs) st = Some r"
  obtains (failed) e where "f x st = Some (Inl e)" "r = Inl e"
  | (continued) s where "f x st = Some (Inr s)" "forEach f xs s = Some r"
  using assms by (auto split: option.splits sum.splits)

lemma visit_Suc_cases:
  assumes "visit (Suc n) k st = Some r"
  obtains (unregistered) "getProperty (modules st) k = Missing" "r = Inl (TypeError, st)"
  | (inherited) b where "getProperty (modules st) k = Inherited b" "r = visitInherited k b st"
  | (cycle) e where "modules st k = Some e" "tmpMark e" "r = Inl (CycleError (name e), st)"
  | (conditionalError) e x where "modules st k = Some e" "\<not> tmpMark e"
      "processConditionalModules k st = Inl x" "r = Inl x"
  | (seen) e st1 where "modules st k = Some e" "\<not> tmpMark e"
      "processConditionalModules k st = Inr st1" "mark e" "r = Inr st1"
  | (dependencyError) e st1 x where "modules st k = Some e" "\<not> tmpMark e"
      "processConditionalModules k st = Inr st1" "\<not> mark e"
      "forEach (skipExports (visit n)) (dependencies e) (setTmpMark k st1) = Some (Inl x)"
      "r = Inl x"
  | (emitted) e st1 st3 where "modules st k = Some e" "\<not> tmpMark e"
      "processConditionalModules k st = Inr st1" "\<not> mark e"
      "forEach (skipExports (visit n)) (dependencies e) (setTmpMark k st1) = Some (Inr st3)"
      "r = Inr ((setMarked k st3)\<lparr>result := name e # result st3\<rparr>)"
  using assms
  by (auto simp: getProperty_Own_iff split: property.splits option.splits sum.splits if_splits)

lemma processConditionalModules_cases:
  assumes "processConditionalModules k st = r"
  obtains (unregistered) "modules st k = None" "r = Inl (TypeError, st)"
  | (noList) e where "modules st k = Some e" "triggersOf (conditionalModules st) (name e) = None" "r = Inr st"
  | (seen) e t where "modules st k = Some e" "triggersOf (conditionalModules st) (name e) = Some t"
      "conditionalMark e" "r = Inr st"
  | (failed) e t x where "modules st k = Some e" "triggersOf (conditionalModules st) (name e) = Some t"
      "\<not> conditionalMark e" "conditionalLoop t st = Inl x" "r = Inl x"
  | (processed) e t st' where "modules st k = Some e" "triggersOf (conditionalModules st) (name e) = Some t"
      "\<not> conditionalMark e" "conditionalLoop t st = Inr st'" "r = Inr (setConditionalMark k st')"
proof (cases "modules st k")
  case None
  then have "r = Inl (TypeError, st)"
    using assms by (simp add: processConditionalModules_def)
  with None show ?thesis by (rule unregistered)
next
  case e: (Some e)
  show ?thesis
  proof (cases "triggersOf (conditionalModules st) (name e)")
    case None
    then have "r = Inr st"
      using assms e by (simp add: processConditionalModules_def)
    with e None show ?thesis by (rule noList)
  next
    case t: (Some t)
    show ?thesis
    proof (cases "conditionalMark e")
      case True
      then have "r = Inr st"
        using assms e t by (simp add: processConditionalModules_def)
      with e t True show ?thesis by (rule seen)
    next
      case False
      show ?thesis
      proof (cases "conditionalLoop t st")
        case (Inl x)
        then have "r = Inl x"
          using assms e t False by (simp add: processConditionalModules_def)
        with e t False Inl show ?thesis by (rule failed)
      next
        case (Inr st')
        then have "r = Inr (setConditionalMark k st')"
          using assms e t False by (simp add: processConditionalModules_def)
        with e t False Inr show ?thesis by (rule processed)
      qed
    qed
  qed
qed

lemma resolveLoop_Suc_cases:
  assumes "resolveLoop (Suc n) t st = Some r"
  obtains (finished) "\<not> t < length (queue st)" "r = Inr st"
  | (unregistered) "t < length (queue st)" "getProperty (modules st) (queue st ! t) = Missing"
      "r = Inl (TypeError, st)"
  | (inherited) b where "t < length (queue st)"
      "getProperty (modules st) (queue st ! t) = Inherited b"
      "visit n (queue st ! t) st = Some r" "r = visitInherited (queue st ! t) b st"
  | (seen) m where "t < length (queue st)" "modules st (queue st ! t) = Some m" "mark m"
      "resolveLoop n (t + 1) st = Some r"
  | (failed) m x where "t < length (queue st)" "modules st (queue st ! t) = Some m" "\<not> mark m"
      "visit n (queue st ! t) st = Some (Inl x)" "r = Inl x"
  | (visited) m st' where "t < length (queue st)" "modules st (queue st ! t) = Some m" "\<not> mark m"
      "visit n (queue st ! t) st = Some (Inr st')" "resolveLoop n (t + 1) st' = Some r"
proof (cases "t < length (queue st)")
  case False
  with assms have "r = Inr st" by simp
  with False show ?thesis by (rule finished)
next
  case t: True
  show ?thesis
  proof (cases "getProperty (modules st) (queue st ! t)")
    case Missing
    with assms t have "r = Inl (TypeError, st)" by simp
    with t Missing show ?thesis by (rule unregistered)
  next
    case (Inherited b)
    from assms t Inherited obtain r' where r': "visit n (queue st ! t) st = Some r'"
      by (auto split: option.splits)
    from visit_inherited [OF Inherited r'] have v: "r' = visitInherited (queue st ! t) b st" .
    with visitInherited_Inl [of "queue st ! t" b st] obtain x where x: "r' = Inl x" by auto
    with assms t Inherited r' have "r = r'" by simp
    with t Inherited r' v show ?thesis by (intro inherited) simp_all
  next
    case (Own m)
    then have m: "modules st (queue st ! t) = Some m" by (simp add: getProperty_Own_iff)
    show ?thesis
    proof (cases "mark m")
      case True
      with assms t Own have "resolveLoop n (t + 1) st = Some r" by simp
      with t m True show ?thesis by (rule seen)
    next
      case False
      from assms t Own False obtain r' where r': "visit n (queue st ! t) st = Some r'"
        by (auto split: option.splits)
      show ?thesis
      proof (cases r')
        case (Inl x)
        with assms t Own False r' have "r = Inl x" by simp
        with t m False r' Inl show ?thesis by (intro failed) simp_all
      next
        case (Inr st')
        with assms t Own False r' have "resolveLoop n (t + 1) st' = Some r" by simp
        with t m False r' Inr show ?thesis by (intro visited) simp_all
      qed
    qed
  qed
qed

section \<open>DependencyBuilder: a pass changes flags only\<close>

lemma sameRegistry_refl [simp]: "sameRegistry st st"
  by (simp add: sameRegistry_def)

lemma sameRegistry_trans: "sameRegistry a b \<Longrightarrow> sameRegistry b c \<Longrightarrow> sameRegistry a c"
  by (simp add: sameRegistry_def)

lemma clearFlags_flag_update [simp]:
  "clearFlags (d\<lparr>mark := b\<rparr>) = clearFlags d"
  "clearFlags (d\<lparr>tmpMark := b\<rparr>) = clearFlags d"
  "clearFlags (d\<lparr>conditionalMark := b\<rparr>) = clearFlags d"
  by (simp_all add: clearFlags_def)

lemma sameRegistry_update_flags:
  assumes "\<And>d. clearFlags (f d) = clearFlags d"
  shows "sameRegistry st (updateDescriptor k f st)"
  by (auto simp: sameRegistry_def base_def updateDescriptor_def fun_eq_iff assms
      split: option.splits)

lemma sameRegistry_set [simp]:
  "sameRegistry st (setTmpMark k st)" "sameRegistry st (setMarked k st)"
  "sameRegistry st (setConditionalMark k st)"
  by (simp_all add: setTmpMark_def setMarked_def setConditionalMark_def sameRegistry_update_flags)

lemma sameRegistry_result_update [simp]:
  "sameRegistry st (st'\<lparr>result := q\<rparr>) = sameRegistry st st'"
  by (simp add: sameRegistry_def)

lemma conditionalLoop_modules:
  "modules (stateOf (conditionalLoop cs st)) = modules st
   \<and> conditionalModules (stateOf (conditionalLoop cs st)) = conditionalModules st
   \<and> result (stateOf (conditionalLoop cs st)) = result st"
  by (induction cs arbitrary: st) (auto split: option.splits property.splits inherited.splits)

lemma conditionalLoop_sameRegistry: "sameRegistry st (stateOf (conditionalLoop cs st))"
  using conditionalLoop_modules [of cs st] by (simp add: sameRegistry_def)

lemma processConditionalModules_sameRegistry':
  assumes "processConditionalModules k st = r"
  shows "sameRegistry st (stateOf r)"
  using assms
proof (cases rule: processConditionalModules_cases)
  case (failed e t x)
  with conditionalLoop_sameRegistry [of st t] show ?thesis by simp
next
  case (processed e t st')
  with conditionalLoop_sameRegistry [of st t] have "sameRegistry st st'" by simp
  then have "sameRegistry st (setConditionalMark k st')"
    by (rule sameRegistry_trans) simp
  with processed show ?thesis by simp
qed simp_all

lemma processConditionalModules_sameRegistry:
  "sameRegistry st (stateOf (processConditionalModules k st))"
  by (rule processConditionalModules_sameRegistry' [OF refl])

lemma processConditionalInherited_sameRegistry:
  "sameRegistry st (stateOf (processConditionalInherited k b st))"
proof (cases "triggersOf (conditionalModules st) (nameOf b)")
  case None
  then show ?thesis by (simp add: processConditionalInherited_def)
next
  case (Some t)
  from conditionalLoop_modules [of t st] Some show ?thesis
    by (cases "conditionalLoop t st")
       (auto simp: processConditionalInherited_def sameRegistry_def stateOf_def
          split: prod.splits)
qed

lemma visitInherited_sameRegistry: "sameRegistry st (stateOf (visitInherited k b st))"
  using processConditionalInherited_sameRegistry [of st k b]
  by (auto simp: visitInherited_def sameRegistry_def split: sum.splits)

lemma forEach_sameRegistry:
  assumes "\<And>x s r. f x s = Some r \<Longrightarrow> sameRegistry s (stateOf r)"
    and "forEach f xs st = Some r"
  shows "sameRegistry st (stateOf r)"
  using assms(2)
proof (induction xs arbitrary: st)
  case Nil
  then show ?case by auto
next
  case (Cons x xs)
  from Cons.prems show ?case
  proof (cases rule: forEach_Cons_cases)
    case (failed e)
    with assms(1) [of x st "Inl e"] show ?thesis by simp
  next
    case (continued s)
    from assms(1) [OF continued(1)] Cons.IH [OF continued(2)]
    show ?thesis by (auto intro: sameRegistry_trans)
  qed
qed

lemma skipExports_sameRegistry:
  assumes "\<And>x s r. f x s = Some r \<Longrightarrow> sameRegistry s (stateOf r)"
    and "skipExports f d s = Some r"
  shows "sameRegistry s (stateOf r)"
  using assms by (auto simp: skipExports_def split: if_splits)

lemma visit_sameRegistry:
  "visit n k st = Some r \<Longrightarrow> sameRegistry st (stateOf r)"
proof (induction n arbitrary: k st r)
  case 0
  then show ?case by simp
next
  case (Suc n)
  note pc = processConditionalModules_sameRegistry [of st k]
  have deps: "forEach (skipExports (visit n)) ds s = Some r' \<Longrightarrow> sameRegistry s (stateOf r')"
    for ds s r'
    by (rule forEach_sameRegistry [where f = "skipExports (visit n)"])
       (rule skipExports_sameRegistry [where f = "visit n"], rule Suc.IH)
  from Suc.prems show ?case
  proof (cases rule: visit_Suc_cases)
    case (inherited b)
    with visitInherited_sameRegistry [of st k b] show ?thesis by simp
  next
    case (conditionalError e x)
    with pc show ?thesis by simp
  next
    case (seen e st1)
    with pc show ?thesis by simp
  next
    case (dependencyError e st1 x)
    from pc dependencyError(3) have "sameRegistry st (setTmpMark k st1)"
      by (auto intro: sameRegistry_trans)
    with deps [OF dependencyError(5)] dependencyError(6) show ?thesis
      by (auto intro: sameRegistry_trans)
  next
    case (emitted e st1 st3)
    from pc emitted(3) have "sameRegistry st (setTmpMark k st1)"
      by (auto intro: sameRegistry_trans)
    with deps [OF emitted(5)] have "sameRegistry st st3"
      by (auto intro: sameRegistry_trans)
    then have "sameRegistry st (setMarked k st3)"
      by (rule sameRegistry_trans) simp
    with emitted(6) show ?thesis by simp
  qed simp_all
qed

lemma resolveLoop_sameRegistry:
  "resolveLoop n t st = Some r \<Longrightarrow> sameRegistry st (stateOf r)"
proof (induction n arbitrary: t st)
  case 0
  then show ?case by simp
next
  case (Suc n)
  from Suc.prems show ?case
  proof (cases rule: resolveLoop_Suc_cases)
    case (inherited b)
    with visit_sameRegistry [OF inherited(3)] show ?thesis by simp
  next
    case (seen m)
    with Suc.IH show ?thesis by simp
  next
    case (failed m x)
    with visit_sameRegistry [OF failed(4)] show ?thesis by simp
  next
    case (visited m st')
    from visit_sameRegistry [OF visited(4)] Suc.IH [OF visited(5)]
    show ?thesis by (auto intro: sameRegistry_trans)
  qed simp_all
qed

section \<open>DependencyBuilder: what the registry keeps\<close>

lemma sameRegistry_lookup:
  assumes "sameRegistry st st'"
  shows "map_option clearFlags (modules st' k) = map_option clearFlags (modules st k)"
  using assms by (auto simp: sameRegistry_def base_def fun_eq_iff)

lemma clearFlags_fields:
  "name (clearFlags d) = name d" "dependencies (clearFlags d) = dependencies d"
  "condition (clearFlags d) = condition d"
  by (simp_all add: clearFlags_def)

lemma sameRegistry_Some:
  assumes "sameRegistry st st'" "modules st k = Some d"
  obtains d' where "modules st' k = Some d'" "name d' = name d"
    "dependencies d' = dependencies d" "condition d' = condition d"
proof -
  from sameRegistry_lookup [OF assms(1), of k] assms(2)
  obtain d' where d': "modules st' k = Some d'" "clearFlags d' = clearFlags d"
    by (cases "modules st' k") auto
  from d'(2) have "name d' = name d" "dependencies d' = dependencies d"
    "condition d' = condition d"
    using clearFlags_fields [of d] clearFlags_fields [of d'] by simp_all
  with d'(1) show ?thesis by (rule that)
qed

lemma sameRegistry_sym: "sameRegistry st st' \<Longrightarrow> sameRegistry st' st"
  by (simp add: sameRegistry_def)

lemma sameRegistry_dom:
  assumes "sameRegistry st st'"
  shows "dom (modules st') = dom (modules st)"
proof -
  have "modules st' k = None \<longleftrightarrow> modules st k = None" for k
    using sameRegistry_lookup [OF assms, of k] by (metis option.map_disc_iff)
  then show ?thesis by (auto simp: dom_def)
qed

lemma sameRegistry_depsOf:
  assumes "sameRegistry st st'"
  shows "depsOf (modules st') = depsOf (modules st)"
proof
  fix k
  show "depsOf (modules st') k = depsOf (modules st) k"
  proof (cases "modules st k")
    case None
    with sameRegistry_lookup [OF assms, of k] show ?thesis by (simp add: depsOf_def)
  next
    case (Some d)
    with assms show ?thesis by (auto simp: depsOf_def elim!: sameRegistry_Some)
  qed
qed

lemma sameRegistry_namesOk:
  assumes "sameRegistry st st'" "namesOk (modules st)"
  shows "namesOk (modules st')"
  unfolding namesOk_def
proof (intro allI impI)
  fix k d'
  assume d': "modules st' k = Some d'"
  from sameRegistry_Some [OF sameRegistry_sym [OF assms(1)] d']
  obtain d where "modules st k = Some d" "name d = name d'" by blast
  with assms(2) show "name d' = k" by (simp add: namesOk_def)
qed

lemma sameRegistry_activated:
  assumes "sameRegistry st st'"
  shows "activated (modules st') (conditionalModules st') = activated (modules st) (conditionalModules st)"
proof -
  have idx: "conditionalModules st' = conditionalModules st"
    using assms by (simp add: sameRegistry_def)
  have "c \<in> activated (modules b) (conditionalModules a) k"
    if "sameRegistry a b" "c \<in> activated (modules a) (conditionalModules a) k" for a b c k
  proof -
    from that(2) obtain t d cnd where *: "conditionalModules a k = Some t" "c \<in> set t"
      "modules a c = Some d" "condition d = Some cnd" "test cnd"
      by (auto simp: activated_def)
    from sameRegistry_Some [OF that(1) *(3)] obtain d' where
      "modules b c = Some d'" "condition d' = condition d" by blast
    with * show ?thesis by (auto simp: activated_def)
  qed
  from this [OF assms] this [OF sameRegistry_sym [OF assms]]
  show ?thesis unfolding idx by (auto simp: fun_eq_iff)
qed

lemma sameRegistry_indexOk:
  assumes "sameRegistry st st'" "indexOk (modules st) (conditionalModules st)"
  shows "indexOk (modules st') (conditionalModules st')"
  unfolding indexOk_def
proof (intro allI impI)
  fix k t c
  assume "conditionalModules st' k = Some t" "c \<in> set t"
  moreover have "conditionalModules st' = conditionalModules st"
    using assms(1) by (simp add: sameRegistry_def)
  ultimately have "\<exists>d. modules st c = Some d \<and> condition d \<noteq> None"
    using assms(2) unfolding indexOk_def by metis
  then obtain d where d: "modules st c = Some d" "condition d \<noteq> None"
    by blast
  from sameRegistry_Some [OF assms(1) d(1)] d(2)
  show "\<exists>d. modules st' c = Some d \<and> condition d \<noteq> None" by metis
qed

section \<open>DependencyBuilder: the flags as sets\<close>

lemma flag_sets_queue [simp]:
  "marked (st\<lparr>queue := q\<rparr>) = marked st" "tmpMarked (st\<lparr>queue := q\<rparr>) = tmpMarked st"
  "condMarked (st\<lparr>queue := q\<rparr>) = condMarked st"
  by (simp_all add: marked_def tmpMarked_def condMarked_def)

lemma flag_sets_result [simp]:
  "marked (st\<lparr>result := q\<rparr>) = marked st" "tmpMarked (st\<lparr>result := q\<rparr>) = tmpMarked st"
  "condMarked (st\<lparr>result := q\<rparr>) = condMarked st"
  by (simp_all add: marked_def tmpMarked_def condMarked_def)

lemma setTmpMark_fields [simp]:
  "queue (setTmpMark k st) = queue st" "result (setTmpMark k st) = result st"
  "conditionalModules (setTmpMark k st) = conditionalModules st"
  by (simp_all add: setTmpMark_def updateDescriptor_def split: option.splits)

lemma setMarked_fields [simp]:
  "queue (setMarked k st) = queue st" "result (setMarked k st) = result st"
  "conditionalModules (setMarked k st) = conditionalModules st"
  by (simp_all add: setMarked_def updateDescriptor_def split: option.splits)

lemma setConditionalMark_fields [simp]:
  "queue (setConditionalMark k st) = queue st" "result (setConditionalMark k st) = result st"
  "conditionalModules (setConditionalMark k st) = conditionalModules st"
  by (simp_all add: setConditionalMark_def updateDescriptor_def split: option.splits)

lemma setTmpMark_sets:
  assumes "modules st k = Some e"
  shows "tmpMarked (setTmpMark k st) = insert k (tmpMarked st)"
    and "marked (setTmpMark k st) = marked st"
    and "condMarked (setTmpMark k st) = condMarked st"
  using assms
  by (auto simp: setTmpMark_def updateDescriptor_def marked_def tmpMarked_def condMarked_def
      split: if_splits)

lemma setMarked_sets:
  assumes "modules st k = Some e"
  shows "tmpMarked (setMarked k st) = tmpMarked st - {k}"
    and "marked (setMarked k st) = insert k (marked st)"
    and "condMarked (setMarked k st) = condMarked st"
  using assms
  by (auto simp: setMarked_def updateDescriptor_def marked_def tmpMarked_def condMarked_def
      split: if_splits)

lemma setConditionalMark_sets:
  assumes "modules st k = Some e"
  shows "tmpMarked (setConditionalMark k st) = tmpMarked st"
    and "marked (setConditionalMark k st) = marked st"
    and "condMarked (setConditionalMark k st) = insert k (condMarked st)"
  using assms
  by (auto simp: setConditionalMark_def updateDescriptor_def marked_def tmpMarked_def
      condMarked_def split: if_splits)

section \<open>DependencyBuilder: the queue and the result only grow\<close>

lemma extends_refl [simp]: "extends known q q"
  by (simp add: extends_def)

lemma extends_trans:
  assumes "extends known a b" "extends known b c"
  shows "extends known a c"
proof -
  from assms obtain m1 m2 where
    m1: "b = a @ m1" "distinct m1" "set m1 \<inter> set a = {}" "set m1 \<subseteq> known"
    and m2: "c = b @ m2" "distinct m2" "set m2 \<inter> set b = {}" "set m2 \<subseteq> known"
    by (auto simp: extends_def)
  have "c = a @ (m1 @ m2)" using m1(1) m2(1) by simp
  moreover have "distinct (m1 @ m2)" using m1 m2 by auto
  moreover have "set (m1 @ m2) \<inter> set a = {}" using m1 m2 by auto
  moreover have "set (m1 @ m2) \<subseteq> known" using m1 m2 by auto
  ultimately show ?thesis unfolding extends_def by blast
qed

lemma extends_push:
  assumes "c \<notin> set q" "c \<in> known"
  shows "extends known q (q @ [c])"
  using assms by (simp add: extends_def)

lemma grows_refl [simp]: "grows st st"
  by (simp add: grows_def)

lemma grows_trans:
  assumes "grows a b" "grows b c"
  shows "grows a c"
proof -
  have d: "dom (modules b) = dom (modules a)"
    using assms(1) by (simp add: grows_def sameRegistry_dom)
  have "extends (dom (modules a)) (queue a) (queue c)"
    using assms d by (auto simp: grows_def intro: extends_trans)
  moreover have "\<exists>new. result c = new @ result a"
    using assms by (auto simp: grows_def)
  ultimately show ?thesis
    using assms by (auto simp: grows_def intro: sameRegistry_trans)
qed

lemma grows_setTmpMark:
  assumes "modules st k = Some e"
  shows "grows st (setTmpMark k st)"
  by (simp add: grows_def setTmpMark_sets [OF assms])

lemma grows_setConditionalMark:
  assumes "modules st k = Some e"
  shows "grows st (setConditionalMark k st)"
  by (auto simp: grows_def setConditionalMark_sets [OF assms])

lemma grows_setMarked:
  assumes "modules st k = Some e"
  shows "grows st ((setMarked k st)\<lparr>result := r # result st\<rparr>)"
  by (auto simp: grows_def setMarked_sets [OF assms])

lemma conditionalLoop_Inr:
  assumes "namesOk (modules st)" "conditionalLoop cs st = Inr st'"
  shows "modules st' = modules st \<and> conditionalModules st' = conditionalModules st
       \<and> result st' = result st
       \<and> extends (dom (modules st)) (queue st) (queue st')
       \<and> (\<forall>c\<in>set cs. \<forall>d cnd. modules st c = Some d \<longrightarrow> condition d = Some cnd \<longrightarrow> test cnd
             \<longrightarrow> c \<in> set (queue st'))"
  using assms
proof (induction cs arbitrary: st)
  case Nil
  then show ?case by simp
next
  case (Cons c cs)
  show ?case
  proof (cases "getProperty (modules st) c")
    case Missing
    with Cons.prems(2) show ?thesis by simp
  next
    case (Inherited b)
    then have none: "modules st c = None" by (rule getProperty_Inherited)
    from Cons.prems(2) Inherited have run: "conditionalLoop cs st = Inr st'"
      by (cases b) (auto split: if_splits)
    from Cons.IH [OF Cons.prems(1) run] none show ?thesis by simp
  next
    case (Own r)
    then have r: "modules st c = Some r" by (simp add: getProperty_Own_iff)
    with Cons.prems(1) have nr: "name r = c" by (simp add: namesOk_def)
    show ?thesis
    proof (cases "c \<notin> set (queue st) \<and> (\<exists>cnd. condition r = Some cnd \<and> test cnd)")
      case True
      then obtain cnd where cnd: "condition r = Some cnd" "test cnd" by blast
      let ?st = "st\<lparr>queue := queue st @ [c]\<rparr>"
      from Cons.prems(2) r nr True cnd have run: "conditionalLoop cs ?st = Inr st'" by simp
      have "namesOk (modules ?st)" using Cons.prems(1) by simp
      from Cons.IH [OF this run]
      have ih: "modules st' = modules st" "conditionalModules st' = conditionalModules st"
        "result st' = result st"
        "extends (dom (modules st)) (queue st @ [c]) (queue st')"
        "\<forall>c\<in>set cs. \<forall>d cnd. modules st c = Some d \<longrightarrow> condition d = Some cnd \<longrightarrow> test cnd
               \<longrightarrow> c \<in> set (queue st')"
        by simp_all
      have "extends (dom (modules st)) (queue st) (queue st @ [c])"
        using True r by (intro extends_push) auto
      from this ih(4) have e: "extends (dom (modules st)) (queue st) (queue st')"
        by (rule extends_trans)
      have "c \<in> set (queue st')" using ih(4) by (auto simp: extends_def)
      with ih e show ?thesis by simp
    next
      case False
      with Cons.prems(2) r nr have run: "conditionalLoop cs st = Inr st'"
        by (auto split: option.splits if_splits)
      from Cons.IH [OF Cons.prems(1) run]
      have ih: "modules st' = modules st" "conditionalModules st' = conditionalModules st"
        "result st' = result st"
        "extends (dom (modules st)) (queue st) (queue st')"
        "\<forall>c\<in>set cs. \<forall>d cnd. modules st c = Some d \<longrightarrow> condition d = Some cnd \<longrightarrow> test cnd
               \<longrightarrow> c \<in> set (queue st')"
        by simp_all
      have "c \<in> set (queue st')" if "condition r = Some cnd" "test cnd" for cnd
        using that False ih(4) by (auto simp: extends_def)
      with ih r show ?thesis by simp
    qed
  qed
qed

lemma frame_refl [simp]: "frame st st"
  by (simp add: frame_def)

lemma frame_trans: "frame a b \<Longrightarrow> frame b c \<Longrightarrow> frame a c"
  by (auto simp: frame_def intro: grows_trans)

lemma processConditionalModules_Inr:
  assumes "namesOk (modules st)" "processConditionalModules k st = Inr st1"
  shows "frame st st1 \<and> marked st1 = marked st \<and> result st1 = result st
       \<and> (conditionalModules st k = None \<or> k \<in> condMarked st1)
       \<and> condMarked st1 \<subseteq> insert k (condMarked st)
       \<and> (k \<in> condMarked st \<or>
            activated (modules st) (conditionalModules st) k \<subseteq> set (queue st1))"
  using assms(2)
proof (cases rule: processConditionalModules_cases)
  case (noList e)
  with assms(1) have "conditionalModules st k = None"
    by (auto simp: namesOk_def dest: triggersOf_None)
  with noList show ?thesis by (auto simp: activated_def)
next
  case (seen e t)
  then have "k \<in> condMarked st" by (simp add: condMarked_def)
  with seen show ?thesis by auto
next
  case (processed e t st')
  from assms(1) processed(1) have nk: "name e = k" by (simp add: namesOk_def)
  from conditionalLoop_Inr [OF assms(1) processed(4)]
  have l: "modules st' = modules st" "conditionalModules st' = conditionalModules st"
    "result st' = result st" "extends (dom (modules st)) (queue st) (queue st')"
    "\<forall>c\<in>set t. \<forall>d cnd. modules st c = Some d \<longrightarrow> condition d = Some cnd \<longrightarrow> test cnd
             \<longrightarrow> c \<in> set (queue st')"
    by simp_all
  have e': "modules st' k = Some e" using l(1) processed(1) by simp
  have g1: "grows st st'"
    using l by (simp add: grows_def sameRegistry_def marked_def condMarked_def)
  have t1: "tmpMarked st' = tmpMarked st" "marked st' = marked st"
    "condMarked st' = condMarked st"
    using l(1) by (simp_all add: tmpMarked_def marked_def condMarked_def)
  have "frame st (setConditionalMark k st')"
    using grows_trans [OF g1 grows_setConditionalMark [OF e']] t1
    by (simp add: frame_def setConditionalMark_sets [OF e'])
  moreover have "activated (modules st) (conditionalModules st) k \<subseteq> set (queue st')"
    using l(5) processed(2) nk by (auto simp: activated_def dest: triggersOf_Some)
  ultimately show ?thesis
    using processed(5) t1 l(3) by (simp add: setConditionalMark_sets [OF e'])
qed simp_all

section \<open>Loops with an invariant\<close>

lemma forEach_Inr_invariant_aux:
  assumes "forEach f xs st = Some (Inr st')" "I seen st"
    and "\<And>seen x s s'. I seen s \<Longrightarrow> x \<in> set xs \<Longrightarrow> f x s = Some (Inr s') \<Longrightarrow> I (seen @ [x]) s'"
  shows "I (seen @ xs) st'"
  using assms
proof (induction xs arbitrary: seen st)
  case Nil
  then show ?case by simp
next
  case (Cons x xs)
  from Cons.prems(1) show ?case
  proof (cases rule: forEach_Cons_cases)
    case (failed e)
    then show ?thesis by simp
  next
    case (continued s)
    have "I (seen @ [x]) s"
      using Cons.prems(3) [OF Cons.prems(2) _ continued(1)] by simp
    from Cons.IH [OF continued(2) this] Cons.prems(3)
    show ?thesis by simp
  qed
qed

lemma forEach_Inr_invariant:
  assumes "forEach f xs st = Some (Inr st')" "I [] st"
    and "\<And>seen x s s'. I seen s \<Longrightarrow> x \<in> set xs \<Longrightarrow> f x s = Some (Inr s') \<Longrightarrow> I (seen @ [x]) s'"
  shows "I xs st'"
  using forEach_Inr_invariant_aux [of f xs st st' I "[]"] assms by simp

lemma forEach_progress:
  assumes "I st"
    and "\<And>x s. x \<in> set xs \<Longrightarrow> I s
           \<Longrightarrow> \<exists>r. f x s = Some r \<and> (case r of Inl (e, s') \<Rightarrow> E e | Inr s' \<Rightarrow> I s')"
  shows "\<exists>r. forEach f xs st = Some r \<and> (case r of Inl (e, s') \<Rightarrow> E e | Inr s' \<Rightarrow> I s')"
  using assms
proof (induction xs arbitrary: st)
  case Nil
  then show ?case by simp
next
  case (Cons x xs)
  from Cons.prems(2) [of x st] Cons.prems(1)
  obtain r where r: "f x st = Some r" "case r of Inl (e, s') \<Rightarrow> E e | Inr s' \<Rightarrow> I s'"
    by auto
  show ?case
  proof (cases r)
    case (Inl a)
    with r show ?thesis by (cases a) simp
  next
    case (Inr s)
    with r have "I s" by simp
    from Cons.IH [OF this] Cons.prems(2) Inr r(1) show ?thesis by simp
  qed
qed

section \<open>DependencyBuilder: what a visit that returns has done\<close>

lemma frame_marked: "frame st st' \<Longrightarrow> marked st \<subseteq> marked st'"
  by (simp add: frame_def grows_def)

lemma frame_namesOk: "frame st st' \<Longrightarrow> namesOk (modules st) \<Longrightarrow> namesOk (modules st')"
  by (auto simp: frame_def grows_def intro: sameRegistry_namesOk)

lemma grows_namesOk: "grows st st' \<Longrightarrow> namesOk (modules st) \<Longrightarrow> namesOk (modules st')"
  by (auto simp: grows_def intro: sameRegistry_namesOk)

lemma grows_Some:
  assumes "grows st st'" "modules st k = Some d"
  obtains d' where "modules st' k = Some d'" "name d' = name d"
    "dependencies d' = dependencies d" "condition d' = condition d"
  using assms sameRegistry_Some [of st st' k d] by (auto simp: grows_def)

lemma visitDeps_frame:
  assumes visit: "\<And>k s s'. namesOk (modules s) \<Longrightarrow> visit n k s = Some (Inr s')
                   \<Longrightarrow> frame s s' \<and> k \<in> marked s'"
    and "namesOk (modules st)"
    and run: "forEach (skipExports (visit n)) ds st = Some (Inr st')"
  shows "frame st st' \<and> (\<forall>d\<in>set ds. d = ''exports'' \<or> d \<in> marked st')"
proof -
  let ?I = "\<lambda>seen s. frame st s \<and> (\<forall>d\<in>set seen. d = ''exports'' \<or> d \<in> marked s)"
  have "?I ds st'"
  proof (rule forEach_Inr_invariant [OF run, where I = ?I])
    show "?I [] st" by simp
  next
    fix seen x s s'
    assume i: "?I seen s" and x: "skipExports (visit n) x s = Some (Inr s')"
    have n: "namesOk (modules s)" using i assms(2) by (auto intro: frame_namesOk)
    have "frame s s' \<and> (x = ''exports'' \<or> x \<in> marked s')"
      using x visit [OF n, of x s'] by (auto simp: skipExports_def split: if_splits)
    with i show "?I (seen @ [x]) s'"
      using frame_marked [of s s'] by (auto intro: frame_trans)
  qed
  then show ?thesis .
qed

lemma visit_frame:
  assumes "namesOk (modules st)" "visit n k st = Some (Inr st')"
  shows "frame st st' \<and> k \<in> marked st'"
  using assms
proof (induction n arbitrary: k st st')
  case 0
  then show ?case by simp
next
  case (Suc n)
  from Suc.prems(2) show ?case
  proof (cases rule: visit_Suc_cases)
    case (seen e st1)
    from processConditionalModules_Inr [OF Suc.prems(1) seen(3)] seen
    show ?thesis by (auto simp: marked_def)
  next
    case (emitted e st1 st3)
    from processConditionalModules_Inr [OF Suc.prems(1) emitted(3)]
    have f1: "frame st st1" by simp
    then have g1: "grows st st1" and t1: "tmpMarked st1 = tmpMarked st"
      by (simp_all add: frame_def)
    from grows_Some [OF g1 emitted(1)] obtain e1 where e1: "modules st1 k = Some e1" by blast
    let ?st2 = "setTmpMark k st1"
    have g2: "grows st ?st2"
      using g1 grows_setTmpMark [OF e1] by (rule grows_trans)
    have n2: "namesOk (modules ?st2)" using g2 Suc.prems(1) by (rule grows_namesOk)
    from visitDeps_frame [OF Suc.IH n2 emitted(5)]
    have f3: "frame ?st2 st3" by simp
    then have g3: "grows st st3" using g2 by (auto simp: frame_def intro: grows_trans)
    from grows_Some [OF g3 emitted(1)] obtain e3 where e3: "modules st3 k = Some e3" by blast
    let ?st' = "(setMarked k st3)\<lparr>result := name e # result st3\<rparr>"
    have g4: "grows st ?st'"
      using g3 grows_setMarked [OF e3] by (rule grows_trans)
    have "tmpMarked st3 = insert k (tmpMarked st)"
      using f3 t1 by (simp add: frame_def setTmpMark_sets [OF e1])
    moreover have "k \<notin> tmpMarked st"
      using emitted(1,2) by (simp add: tmpMarked_def)
    ultimately have "tmpMarked ?st' = tmpMarked st"
      by (simp add: setMarked_sets [OF e3])
    with g4 emitted(6) show ?thesis
      by (simp add: frame_def setMarked_sets [OF e3])
  qed simp_all
qed

section \<open>DependencyBuilder: the invariant of a pass\<close>

lemma grows_queue: "grows st st' \<Longrightarrow> set (queue st) \<subseteq> set (queue st')"
  by (auto simp: grows_def extends_def)

lemma grows_depsOf: "grows st st' \<Longrightarrow> depsOf (modules st') = depsOf (modules st)"
  by (simp add: grows_def sameRegistry_depsOf)

lemma grows_activated:
  "grows st st' \<Longrightarrow> activated (modules st') (conditionalModules st')
     = activated (modules st) (conditionalModules st)"
  by (simp add: grows_def sameRegistry_activated)

lemma grows_index: "grows st st' \<Longrightarrow> conditionalModules st' = conditionalModules st"
  by (simp add: grows_def sameRegistry_def)

lemma depsOf_set [simp]:
  "depsOf (modules (setTmpMark k st)) = depsOf (modules st)"
  "depsOf (modules (setMarked k st)) = depsOf (modules st)"
  "depsOf (modules (setConditionalMark k st)) = depsOf (modules st)"
  by (simp_all add: sameRegistry_depsOf)

lemma activated_set [simp]:
  "activated (modules (setTmpMark k st)) (conditionalModules st)
     = activated (modules st) (conditionalModules st)"
  "activated (modules (setMarked k st)) (conditionalModules st)
     = activated (modules st) (conditionalModules st)"
  using sameRegistry_activated [of st "setTmpMark k st"]
    sameRegistry_activated [of st "setMarked k st"] by simp_all

lemma passInvD:
  assumes "passInv st"
  shows "namesOk (modules st)" and "marked st = set (result st)" and "distinct (result st)"
    and "marked st \<inter> tmpMarked st = {}"
    and "\<And>xs m ys. result st = xs @ m # ys \<Longrightarrow> set (depsOf (modules st) m) \<subseteq> set ys"
    and "\<And>k. k \<in> condMarked st
           \<Longrightarrow> activated (modules st) (conditionalModules st) k \<subseteq> set (queue st)"
    and "\<And>k. k \<in> marked st \<or> k \<in> tmpMarked st
           \<Longrightarrow> conditionalModules st k = None \<or> k \<in> condMarked st"
  using assms unfolding passInv_def by blast+

lemma passInvI:
  assumes "namesOk (modules st)" and "marked st = set (result st)" and "distinct (result st)"
    and "marked st \<inter> tmpMarked st = {}"
    and "\<And>xs m ys. result st = xs @ m # ys \<Longrightarrow> set (depsOf (modules st) m) \<subseteq> set ys"
    and "\<And>k. k \<in> condMarked st
           \<Longrightarrow> activated (modules st) (conditionalModules st) k \<subseteq> set (queue st)"
    and "\<And>k. k \<in> marked st \<or> k \<in> tmpMarked st
           \<Longrightarrow> conditionalModules st k = None \<or> k \<in> condMarked st"
  shows "passInv st"
  using assms unfolding passInv_def by blast

lemma passInv_processConditionalModules:
  assumes "passInv st" "processConditionalModules k st = Inr st1"
  shows "passInv st1"
proof -
  note i = passInvD [OF assms(1)]
  from processConditionalModules_Inr [OF i(1) assms(2)]
  have f: "frame st st1" and m: "marked st1 = marked st" and r: "result st1 = result st"
    and c: "condMarked st1 \<subseteq> insert k (condMarked st)"
    and a: "k \<in> condMarked st \<or> activated (modules st) (conditionalModules st) k \<subseteq> set (queue st1)"
    by simp_all
  from f have g: "grows st st1" and t: "tmpMarked st1 = tmpMarked st"
    by (simp_all add: frame_def)
  have cm: "condMarked st \<subseteq> condMarked st1" using g by (simp add: grows_def)
  have q: "set (queue st) \<subseteq> set (queue st1)" using g by (rule grows_queue)
  show ?thesis
  proof (rule passInvI)
    show "namesOk (modules st1)" by (rule grows_namesOk [OF g i(1)])
    show "marked st1 = set (result st1)" using i(2) m r by simp
    show "distinct (result st1)" using i(3) r by simp
    show "marked st1 \<inter> tmpMarked st1 = {}" using i(4) m t by simp
  next
    fix xs m' ys
    assume "result st1 = xs @ m' # ys"
    then show "set (depsOf (modules st1) m') \<subseteq> set ys"
      using i(5) [of xs m' ys] r by (simp add: grows_depsOf [OF g])
  next
    fix j
    assume j: "j \<in> condMarked st1"
    show "activated (modules st1) (conditionalModules st1) j \<subseteq> set (queue st1)"
    proof (cases "j \<in> condMarked st")
      case True
      from i(6) [OF this] q show ?thesis by (auto simp: grows_activated [OF g])
    next
      case False
      with j c have "j = k" by auto
      with a False show ?thesis by (simp add: grows_activated [OF g])
    qed
  next
    fix j
    assume "j \<in> marked st1 \<or> j \<in> tmpMarked st1"
    then have "j \<in> marked st \<or> j \<in> tmpMarked st" using m t by simp
    from i(7) [OF this] cm
    show "conditionalModules st1 j = None \<or> j \<in> condMarked st1"
      by (auto simp: grows_index [OF g])
  qed
qed

lemma passInv_setTmpMark:
  assumes "passInv st" "modules st k = Some e" "k \<notin> marked st"
    "conditionalModules st k = None \<or> k \<in> condMarked st"
  shows "passInv (setTmpMark k st)"
proof -
  note i = passInvD [OF assms(1)]
  note sets = setTmpMark_sets [OF assms(2)]
  have g: "grows st (setTmpMark k st)" by (rule grows_setTmpMark [OF assms(2)])
  show ?thesis
  proof (rule passInvI)
    show "namesOk (modules (setTmpMark k st))" by (rule grows_namesOk [OF g i(1)])
    show "marked (setTmpMark k st) = set (result (setTmpMark k st))" using i(2) by (simp add: sets)
    show "distinct (result (setTmpMark k st))" using i(3) by simp
    show "marked (setTmpMark k st) \<inter> tmpMarked (setTmpMark k st) = {}"
      using i(4) assms(3) by (simp add: sets)
  next
    fix xs m ys
    assume "result (setTmpMark k st) = xs @ m # ys"
    then show "set (depsOf (modules (setTmpMark k st)) m) \<subseteq> set ys"
      using i(5) [of xs m ys] by simp
  next
    fix j
    assume "j \<in> condMarked (setTmpMark k st)"
    then have "j \<in> condMarked st" by (simp add: sets)
    from i(6) [OF this]
    show "activated (modules (setTmpMark k st)) (conditionalModules (setTmpMark k st)) j
            \<subseteq> set (queue (setTmpMark k st))"
      by simp
  next
    fix j
    assume "j \<in> marked (setTmpMark k st) \<or> j \<in> tmpMarked (setTmpMark k st)"
    then have "j = k \<or> j \<in> marked st \<or> j \<in> tmpMarked st" by (auto simp: sets)
    then show "conditionalModules (setTmpMark k st) j = None \<or> j \<in> condMarked (setTmpMark k st)"
      using assms(4) i(7) [of j] by (auto simp: sets)
  qed
qed

lemma passInv_emit:
  assumes "passInv st" "modules st k = Some e" "k \<in> tmpMarked st"
    "set (depsOf (modules st) k) \<subseteq> marked st"
  shows "passInv ((setMarked k st)\<lparr>result := k # result st\<rparr>)"
proof -
  let ?st = "(setMarked k st)\<lparr>result := k # result st\<rparr>"
  note i = passInvD [OF assms(1)]
  note sets = setMarked_sets [OF assms(2)]
  have g: "grows st ?st" by (rule grows_setMarked [OF assms(2)])
  have k: "k \<notin> marked st" using i(4) assms(3) by auto
  show ?thesis
  proof (rule passInvI)
    show "namesOk (modules ?st)" by (rule grows_namesOk [OF g i(1)])
    show "marked ?st = set (result ?st)" using i(2) by (simp add: sets)
    show "distinct (result ?st)" using i(2,3) k by simp
    show "marked ?st \<inter> tmpMarked ?st = {}" using i(4) by (auto simp: sets)
  next
    fix xs m ys
    assume r: "result ?st = xs @ m # ys"
    show "set (depsOf (modules ?st) m) \<subseteq> set ys"
    proof (cases xs)
      case Nil
      with r assms(4) i(2) show ?thesis by simp
    next
      case (Cons x xs')
      with r have "result st = xs' @ m # ys" by simp
      from i(5) [OF this] show ?thesis by simp
    qed
  next
    fix j
    assume "j \<in> condMarked ?st"
    then have "j \<in> condMarked st" by (simp add: sets)
    from i(6) [OF this]
    show "activated (modules ?st) (conditionalModules ?st) j \<subseteq> set (queue ?st)"
      by simp
  next
    fix j
    assume "j \<in> marked ?st \<or> j \<in> tmpMarked ?st"
    then have "j \<in> marked st \<or> j \<in> tmpMarked st" using assms(3) by (auto simp: sets)
    from i(7) [OF this]
    show "conditionalModules ?st j = None \<or> j \<in> condMarked ?st" by (simp add: sets)
  qed
qed

lemma visit_passInv:
  assumes "passInv st" "visit n k st = Some (Inr st')"
  shows "passInv st'"
  using assms
proof (induction n arbitrary: k st st')
  case 0
  then show ?case by simp
next
  case (Suc n)
  have n: "namesOk (modules st)" using Suc.prems(1) by (rule passInvD)
  from Suc.prems(2) show ?case
  proof (cases rule: visit_Suc_cases)
    case (seen e st1)
    with passInv_processConditionalModules [OF Suc.prems(1) seen(3)] show ?thesis by simp
  next
    case (emitted e st1 st3)
    have i1: "passInv st1" by (rule passInv_processConditionalModules [OF Suc.prems(1) emitted(3)])
    from processConditionalModules_Inr [OF n emitted(3)]
    have f1: "frame st st1" and m1: "marked st1 = marked st"
      and c1: "conditionalModules st k = None \<or> k \<in> condMarked st1"
      by simp_all
    from f1 have g1: "grows st st1" by (simp add: frame_def)
    from grows_Some [OF g1 emitted(1)] obtain e1 where e1: "modules st1 k = Some e1" by blast
    have nk: "name e = k" using n emitted(1) by (simp add: namesOk_def)
    have "k \<notin> marked st1" using m1 emitted(1,4) by (simp add: marked_def)
    with i1 e1 c1 have i2: "passInv (setTmpMark k st1)"
      by (intro passInv_setTmpMark) (auto simp: grows_index [OF g1])
    have n2: "namesOk (modules (setTmpMark k st1))" using i2 by (rule passInvD)
    have i3: "passInv st3"
    proof (rule forEach_Inr_invariant [OF emitted(5), where I = "\<lambda>seen s. passInv s"])
      show "passInv (setTmpMark k st1)" by (rule i2)
    next
      fix x s s'
      assume "passInv s" "skipExports (visit n) x s = Some (Inr s')"
      then show "passInv s'"
        using Suc.IH [of s x s'] by (auto simp: skipExports_def split: if_splits)
    qed
    from visitDeps_frame [OF visit_frame n2 emitted(5)]
    have f3: "frame (setTmpMark k st1) st3"
      and d3: "\<forall>d\<in>set (dependencies e). d = ''exports'' \<or> d \<in> marked st3"
      by simp_all
    have g3: "grows st st3"
      using grows_trans [OF g1 grows_setTmpMark [OF e1]] f3
      by (auto simp: frame_def intro: grows_trans)
    from grows_Some [OF g3 emitted(1)] obtain e3 where e3: "modules st3 k = Some e3" by blast
    have "k \<in> tmpMarked st3"
      using f3 by (simp add: frame_def setTmpMark_sets [OF e1])
    moreover have "set (depsOf (modules st3) k) \<subseteq> marked st3"
      using d3 emitted(1) by (auto simp: grows_depsOf [OF g3] depsOf_def)
    ultimately have "passInv ((setMarked k st3)\<lparr>result := k # result st3\<rparr>)"
      using i3 e3 by (intro passInv_emit)
    with emitted(6) nk show ?thesis by simp
  qed simp_all
qed

section \<open>DependencyBuilder: the loop over the queue\<close>

lemma frame_take_queue:
  assumes "frame st st'" "t \<le> length (queue st)"
  shows "take t (queue st') = take t (queue st)"
  using assms by (auto simp: frame_def grows_def extends_def)

lemma frame_nth_queue:
  assumes "frame st st'" "t < length (queue st)"
  shows "queue st' ! t = queue st ! t" "t < length (queue st')"
  using assms by (auto simp: frame_def grows_def extends_def nth_append)

lemma resolveLoop_passInv:
  assumes "passInv st" "tmpMarked st = {}" "set (take t (queue st)) \<subseteq> marked st"
    "resolveLoop n t st = Some (Inr st')"
  shows "passInv st' \<and> frame st st' \<and> set (queue st') \<subseteq> marked st'"
  using assms
proof (induction n arbitrary: t st)
  case 0
  then show ?case by simp
next
  case (Suc n)
  from Suc.prems(4) show ?case
  proof (cases rule: resolveLoop_Suc_cases)
    case finished
    with Suc.prems show ?thesis by simp
  next
    case (seen m)
    then have "queue st ! t \<in> marked st" by (simp add: marked_def)
    with Suc.prems(3) seen(1) have "set (take (t + 1) (queue st)) \<subseteq> marked st"
      by (simp add: take_Suc_conv_app_nth)
    from Suc.IH [OF Suc.prems(1,2) this seen(4)] show ?thesis .
  next
    case (visited m s)
    have n: "namesOk (modules st)" using Suc.prems(1) by (rule passInvD)
    from visit_frame [OF n visited(4)]
    have f: "frame st s" and k: "queue st ! t \<in> marked s" by simp_all
    have i: "passInv s" by (rule visit_passInv [OF Suc.prems(1) visited(4)])
    have t: "tmpMarked s = {}" using f Suc.prems(2) by (simp add: frame_def)
    have "take (t + 1) (queue s) = take t (queue st) @ [queue st ! t]"
      using frame_take_queue [OF f, of "t + 1"] visited(1) by (simp add: take_Suc_conv_app_nth)
    with Suc.prems(3) k frame_marked [OF f]
    have "set (take (t + 1) (queue s)) \<subseteq> marked s" by auto
    from Suc.IH [OF i t this visited(5)] f show ?thesis
      by (auto intro: frame_trans)
  qed simp_all
qed

section \<open>DependencyBuilder: a pass comes to an end\<close>

lemma grows_wellFormed:
  assumes "grows st st'" "wellFormed st"
  shows "wellFormed st'"
proof -
  from assms(1) have s: "sameRegistry st st'" by (simp add: grows_def)
  have "closedDeps (modules st')"
    using assms(2) by (simp add: wellFormed_def closedDeps_def sameRegistry_depsOf [OF s]
        sameRegistry_dom [OF s])
  with assms(2) s show ?thesis
    by (simp add: wellFormed_def plainNames_def sameRegistry_dom sameRegistry_namesOk
        sameRegistry_indexOk)
qed

lemma grows_depRel: "grows st st' \<Longrightarrow> depRel (modules st') = depRel (modules st)"
  by (simp add: depRel_def grows_depsOf)

lemma grows_dom: "grows st st' \<Longrightarrow> dom (modules st') = dom (modules st)"
  by (simp add: grows_def sameRegistry_dom)

lemma conditionalLoop_progress:
  assumes "\<forall>c\<in>set cs. \<exists>d. modules st c = Some d \<and> condition d \<noteq> None"
  shows "\<exists>st'. conditionalLoop cs st = Inr st'"
  using assms
proof (induction cs arbitrary: st)
  case Nil
  then show ?case by simp
next
  case (Cons c cs)
  then obtain d cnd where d: "modules st c = Some d" "condition d = Some cnd" by auto
  have "\<exists>st'. conditionalLoop cs (st\<lparr>queue := q\<rparr>) = Inr st'" for q
    by (rule Cons.IH) (use Cons.prems in simp)
  moreover have "\<exists>st'. conditionalLoop cs st = Inr st'"
    by (rule Cons.IH) (use Cons.prems in simp)
  ultimately show ?case using d by simp
qed

lemma processConditionalModules_progress:
  assumes "wellFormed st" "modules st k = Some e"
  shows "\<exists>st1. processConditionalModules k st = Inr st1"
proof -
  have nk: "name e = k" using assms by (simp add: wellFormed_def namesOk_def)
  have "k \<notin> set inheritedNames"
    using assms unfolding wellFormed_def plainNames_def by blast
  then have tr: "triggersOf (conditionalModules st) (name e) = conditionalModules st k"
    using nk by (simp add: triggersOf_plain)
  show ?thesis
  proof (cases "conditionalModules st k")
    case None
    with assms(2) tr show ?thesis by (simp add: processConditionalModules_def)
  next
    case (Some t)
    with assms(1) have "\<forall>c\<in>set t. \<exists>d. modules st c = Some d \<and> condition d \<noteq> None"
      unfolding wellFormed_def indexOk_def by blast
    from conditionalLoop_progress [OF this] obtain st' where "conditionalLoop t st = Inr st'"
      by blast
    with assms(2) Some tr show ?thesis by (simp add: processConditionalModules_def)
  qed
qed

lemma unvisited_frame:
  assumes "frame st st'"
  shows "unvisited st' \<subseteq> unvisited st"
proof -
  have "dom (modules st') = dom (modules st)" "tmpMarked st' = tmpMarked st"
    using assms by (simp_all add: frame_def grows_dom)
  with frame_marked [OF assms] show ?thesis
    unfolding unvisited_def by blast
qed

lemma cycleError_grows: "grows st st' \<Longrightarrow> cycleError st' = cycleError st"
  by (simp add: cycleError_def grows_depRel fun_eq_iff)

lemma genuine_grows: "grows st st' \<Longrightarrow> genuine st' r = genuine st r"
  by (auto simp: genuine_def cycleError_grows split: sum.splits)

lemma visit_progress:
  assumes "wellFormed st" "k \<in> dom (modules st)" "card (unvisited st) < n"
    "\<forall>t\<in>tmpMarked st. (t, k) \<in> (depRel (modules st))\<^sup>+"
  shows "\<exists>r. visit n k st = Some r \<and> genuine st r"
  using assms
proof (induction n arbitrary: k st)
  case 0
  then show ?case by simp
next
  case (Suc n)
  from Suc.prems(2) obtain e where e: "modules st k = Some e" by auto
  have nk: "name e = k" using Suc.prems(1) e by (simp add: wellFormed_def namesOk_def)
  have n0: "namesOk (modules st)" using Suc.prems(1) by (simp add: wellFormed_def)
  show ?case
  proof (cases "tmpMark e")
    case True
    then have "k \<in> tmpMarked st" using e by (simp add: tmpMarked_def)
    with Suc.prems(4) have "(k, k) \<in> (depRel (modules st))\<^sup>+" by blast
    with e True nk show ?thesis by (simp add: genuine_def cycleError_def)
  next
    case False
    from processConditionalModules_progress [OF Suc.prems(1) e]
    obtain st1 where st1: "processConditionalModules k st = Inr st1" by blast
    show ?thesis
    proof (cases "mark e")
      case True
      with e False st1 show ?thesis by (simp add: genuine_def)
    next
      case nm: False
      from processConditionalModules_Inr [OF n0 st1]
      have f1: "frame st st1" and m1: "marked st1 = marked st" by simp_all
      from f1 have g1: "grows st st1" and t1: "tmpMarked st1 = tmpMarked st"
        by (simp_all add: frame_def)
      from grows_Some [OF g1 e] obtain e1 where e1: "modules st1 k = Some e1" by blast
      let ?st2 = "setTmpMark k st1"
      have g2: "grows st ?st2" using g1 grows_setTmpMark [OF e1] by (rule grows_trans)
      have t2: "tmpMarked ?st2 = insert k (tmpMarked st)"
        using t1 by (simp add: setTmpMark_sets [OF e1])
      have fin: "finite (unvisited st)"
        using Suc.prems(1) by (simp add: wellFormed_def unvisited_def)
      have ku: "k \<in> unvisited st"
        using e False nm by (auto simp: unvisited_def marked_def tmpMarked_def)
      have sub: "unvisited ?st2 \<subseteq> unvisited st - {k}"
        using m1 t2 by (auto simp: unvisited_def grows_dom [OF g2] setTmpMark_sets [OF e1])
      have "card (unvisited ?st2) \<le> card (unvisited st - {k})"
        using sub fin by (intro card_mono) simp_all
      moreover have "card (unvisited st - {k}) < card (unvisited st)"
        using ku fin by (intro card_Diff1_less) simp_all
      ultimately have c2: "card (unvisited ?st2) < n"
        using Suc.prems(3) by simp
      let ?I = "\<lambda>s. frame ?st2 s"
      let ?E = "cycleError st"
      have "\<exists>r. forEach (skipExports (visit n)) (dependencies e) ?st2 = Some r
              \<and> (case r of Inl (err, s') \<Rightarrow> ?E err | Inr s' \<Rightarrow> ?I s')"
      proof (rule forEach_progress [where I = ?I and E = ?E])
        show "?I ?st2" by simp
      next
        fix x s
        assume x: "x \<in> set (dependencies e)" and i: "?I s"
        from i have gs: "grows ?st2 s" and ts: "tmpMarked s = insert k (tmpMarked st)"
          using t2 by (simp_all add: frame_def)
        have g: "grows st s" using g2 gs by (rule grows_trans)
        show "\<exists>r. skipExports (visit n) x s = Some r
                \<and> (case r of Inl (err, s') \<Rightarrow> ?E err | Inr s' \<Rightarrow> ?I s')"
        proof (cases "x = ''exports''")
          case True
          with i show ?thesis by (simp add: skipExports_def)
        next
          case False
          with x e have xd: "x \<in> set (depsOf (modules st) k)" by (simp add: depsOf_def)
          then have xr: "(k, x) \<in> depRel (modules st)" by (simp add: depRel_def)
          have w: "wellFormed s" using g Suc.prems(1) by (rule grows_wellFormed)
          have "x \<in> dom (modules st)"
            using xd Suc.prems(1) unfolding wellFormed_def closedDeps_def by blast
          then have d: "x \<in> dom (modules s)" by (simp add: grows_dom [OF g])
          have "card (unvisited s) \<le> card (unvisited ?st2)"
            using unvisited_frame [OF i] fin sub
            by (intro card_mono) (auto intro: finite_subset)
          with c2 have c: "card (unvisited s) < n" by simp
          have p: "\<forall>t\<in>tmpMarked s. (t, x) \<in> (depRel (modules s))\<^sup>+"
          proof
            fix t
            assume "t \<in> tmpMarked s"
            with ts have "t = k \<or> t \<in> tmpMarked st" by simp
            then have "(t, x) \<in> (depRel (modules st))\<^sup>+"
              using xr Suc.prems(4) by (auto intro: trancl_into_trancl)
            then show "(t, x) \<in> (depRel (modules s))\<^sup>+" by (simp add: grows_depRel [OF g])
          qed
          from Suc.IH [OF w d c p] obtain r where r: "visit n x s = Some r" "genuine s r"
            by blast
          have n: "namesOk (modules s)" using w by (simp add: wellFormed_def)
          show ?thesis
          proof (cases r)
            case (Inl a)
            with r False genuine_grows [OF g, of r] show ?thesis
              by (cases a) (simp add: skipExports_def genuine_def)
          next
            case (Inr s')
            with r(1) visit_frame [OF n, of n x s'] i have "?I s'"
              by (auto intro: frame_trans)
            with r(1) Inr False show ?thesis by (simp add: skipExports_def)
          qed
        qed
      qed
      then obtain r where r: "forEach (skipExports (visit n)) (dependencies e) ?st2 = Some r"
        "case r of Inl (err, s') \<Rightarrow> ?E err | Inr s' \<Rightarrow> ?I s'" by blast
      show ?thesis
      proof (cases r)
        case (Inl a)
        with r e False st1 nm show ?thesis by (cases a) (simp add: genuine_def)
      next
        case (Inr s3)
        with r e False st1 nm show ?thesis by (simp add: genuine_def)
      qed
    qed
  qed
qed

lemma frame_fuelBound:
  assumes "frame st st'" "finite (dom (modules st))"
  shows "fuelBound t st' + (length (queue st) - t) \<le> fuelBound t st + (length (queue st') - t)"
    and "length (queue st) \<le> length (queue st')"
    and "fuelBound (t + 1) st' \<le> fuelBound (t + 1) st"
proof -
  from assms(1) obtain more where more: "queue st' = queue st @ more" "distinct more"
    "set more \<inter> set (queue st) = {}" "set more \<subseteq> dom (modules st)"
    by (auto simp: frame_def grows_def extends_def)
  have d: "dom (modules st') = dom (modules st)"
    using assms(1) by (simp add: frame_def grows_dom)
  let ?A = "dom (modules st) - set (queue st)"
  have "dom (modules st) - set (queue st') = ?A - set more"
    using more(1) by auto
  moreover have "card (?A - set more) = card ?A - card (set more)"
    using more(3,4) assms(2) by (intro card_Diff_subset) auto
  moreover have "card (set more) = length more"
    using more(2) by (rule distinct_card)
  moreover have "card (set more) \<le> card ?A"
    using more(3,4) assms(2) by (intro card_mono) auto
  ultimately have c: "card (dom (modules st') - set (queue st')) + length more = card ?A"
    by (simp add: d)
  show "fuelBound t st' + (length (queue st) - t) \<le> fuelBound t st + (length (queue st') - t)"
    using c more(1) by (simp add: fuelBound_def d)
  show "length (queue st) \<le> length (queue st')" using more(1) by simp
  show "fuelBound (t + 1) st' \<le> fuelBound (t + 1) st"
    using c more(1) by (simp add: fuelBound_def d)
qed

lemma resolveLoop_progress:
  assumes "wellFormed st" "set (queue st) \<subseteq> dom (modules st)" "tmpMarked st = {}"
    "fuelBound t st < n"
  shows "\<exists>r. resolveLoop n t st = Some r \<and> genuine st r"
  using assms
proof (induction n arbitrary: t st)
  case 0
  then show ?case by simp
next
  case (Suc n)
  show ?case
  proof (cases "t < length (queue st)")
    case False
    then show ?thesis by (simp add: genuine_def)
  next
    case True
    with Suc.prems(2) obtain m where m: "modules st (queue st ! t) = Some m"
      by (meson domD nth_mem subsetD)
    have fin: "finite (dom (modules st))" using Suc.prems(1) by (simp add: wellFormed_def)
    have b1: "fuelBound (t + 1) st < n"
      using Suc.prems(4) True by (simp add: fuelBound_def)
    show ?thesis
    proof (cases "mark m")
      case True
      from Suc.IH [OF Suc.prems(1,2,3) b1] True m \<open>t < length (queue st)\<close>
      show ?thesis by simp
    next
      case False
      have "card (unvisited st) \<le> card (dom (modules st))"
        using fin by (intro card_mono) (auto simp: unvisited_def)
      moreover have "card (dom (modules st)) < n"
        using Suc.prems(4) True by (simp add: fuelBound_def)
      ultimately have c: "card (unvisited st) < n" by simp
      have d: "queue st ! t \<in> dom (modules st)" using m by auto
      have p: "\<forall>x\<in>tmpMarked st. (x, queue st ! t) \<in> (depRel (modules st))\<^sup>+"
        using Suc.prems(3) by simp
      from visit_progress [OF Suc.prems(1) d c p]
      obtain r where r: "visit n (queue st ! t) st = Some r" "genuine st r" by blast
      show ?thesis
      proof (cases r)
        case (Inl a)
        with r m True False show ?thesis by simp
      next
        case (Inr s)
        have n0: "namesOk (modules st)" using Suc.prems(1) by (simp add: wellFormed_def)
        from visit_frame [OF n0] r(1) Inr have f: "frame st s" by simp
        then have g: "grows st s" and ts: "tmpMarked s = {}"
          using Suc.prems(3) by (simp_all add: frame_def)
        have w: "wellFormed s" using g Suc.prems(1) by (rule grows_wellFormed)
        have q: "set (queue s) \<subseteq> dom (modules s)"
          using g Suc.prems(2) by (auto simp: grows_dom [OF g] grows_def extends_def)
        have b: "fuelBound (t + 1) s < n"
          using frame_fuelBound(3) [OF f fin, of t] b1 by simp
        from Suc.IH [OF w q ts b] obtain r' where
          r': "resolveLoop n (t + 1) s = Some r'" "genuine s r'" by blast
        with r(1) Inr m True False genuine_grows [OF g, of r'] show ?thesis by simp
      qed
    qed
  qed
qed

section \<open>DependencyBuilder: more fuel changes nothing\<close>

lemma forEach_mono:
  assumes "\<And>x s r. f x s = Some r \<Longrightarrow> g x s = Some r" "forEach f xs st = Some r"
  shows "forEach g xs st = Some r"
  using assms(2)
proof (induction xs arbitrary: st)
  case Nil
  then show ?case by simp
next
  case (Cons x xs)
  from Cons.prems show ?case
  proof (cases rule: forEach_Cons_cases)
    case (failed e)
    with assms(1) [of x st "Inl e"] show ?thesis by simp
  next
    case (continued s)
    with assms(1) [of x st "Inr s"] Cons.IH [of s] show ?thesis by simp
  qed
qed

lemma visit_Suc_mono: "visit n k st = Some r \<Longrightarrow> visit (Suc n) k st = Some r"
proof (induction n arbitrary: k st r)
  case 0
  then show ?case by simp
next
  case (Suc n)
  have deps: "forEach (skipExports (visit n)) ds s = Some r'
      \<Longrightarrow> forEach (skipExports (visit (Suc n))) ds s = Some r'" for ds s r'
    by (rule forEach_mono [where f = "skipExports (visit n)"])
       (auto simp: skipExports_def dest: Suc.IH split: if_splits)
  from Suc.prems show ?case
  proof (cases rule: visit_Suc_cases)
    case (dependencyError e st1 x)
    with deps [OF dependencyError(5)] show ?thesis by simp
  next
    case (emitted e st1 st3)
    with deps [OF emitted(5)] show ?thesis by simp
  qed simp_all
qed

lemma visit_mono:
  assumes "visit n k st = Some r" "n \<le> m"
  shows "visit m k st = Some r"
proof -
  have "visit (n + d) k st = Some r" for d
  proof (induction d)
    case 0
    show ?case using assms(1) by simp
  next
    case (Suc d)
    from visit_Suc_mono [OF this] show ?case by (simp del: visit.simps)
  qed
  from this [of "m - n"] assms(2) show ?thesis by simp
qed

lemma resolveLoop_Suc_mono:
  "resolveLoop n t st = Some r \<Longrightarrow> resolveLoop (Suc n) t st = Some r"
proof (induction n arbitrary: t st)
  case 0
  then show ?case by simp
next
  case (Suc n)
  from Suc.prems show ?case
  proof (cases rule: resolveLoop_Suc_cases)
    case (inherited b)
    from visitInherited_Inl obtain x where "visitInherited (queue st ! t) b st = Inl x"
      by blast
    with inherited visit_Suc_mono [OF inherited(3)] show ?thesis by simp
  next
    case (seen m)
    with Suc.IH [OF seen(4)] show ?thesis by simp
  next
    case (failed m x)
    with visit_Suc_mono [OF failed(4)] show ?thesis by simp
  next
    case (visited m st')
    with visit_Suc_mono [OF visited(4)] Suc.IH [OF visited(5)] show ?thesis by simp
  qed simp_all
qed

lemma resolveLoop_mono:
  assumes "resolveLoop n t st = Some r" "n \<le> m"
  shows "resolveLoop m t st = Some r"
proof -
  have "resolveLoop (n + d) t st = Some r" for d
  proof (induction d)
    case 0
    show ?case using assms(1) by simp
  next
    case (Suc d)
    from resolveLoop_Suc_mono [OF this] show ?case by (simp del: resolveLoop.simps)
  qed
  from this [of "m - n"] assms(2) show ?thesis by simp
qed

lemma resolveDependencies_mono:
  assumes "resolveDependencies n request st = Some x" "n \<le> m"
  shows "resolveDependencies m request st = Some x"
proof -
  from assms(1) obtain r where r: "resolveLoop n 0 (st\<lparr>queue := request\<rparr>) = Some r"
    by (auto simp: resolveDependencies_def split: option.splits)
  from resolveLoop_mono [OF r assms(2)] r assms(1) show ?thesis
    by (simp add: resolveDependencies_def)
qed

section \<open>DependencyBuilder: a whole pass\<close>

lemma flagsClear_base: "flagsClear (base ms)"
  by (auto simp: flagsClear_def base_def clearFlags_def)

lemma base_flagsClear:
  assumes "flagsClear ms"
  shows "base ms = ms"
proof
  fix k
  show "base ms k = ms k"
  proof (cases "ms k")
    case None
    then show ?thesis by (simp add: base_def)
  next
    case (Some d)
    with assms have "clearFlags d = d" by (simp add: flagsClear_def clearFlags_def)
    with Some show ?thesis by (simp add: base_def)
  qed
qed

lemma resolveDependencies_cases:
  assumes "resolveDependencies fuel request st = Some (x, st')"
  obtains (failed) e s where "resolveLoop fuel 0 (st\<lparr>queue := request\<rparr>) = Some (Inl (e, s))"
      "x = Inl e" "st' = cleanup s"
  | (returned) s where "resolveLoop fuel 0 (st\<lparr>queue := request\<rparr>) = Some (Inr s)"
      "x = Inr (rev (result s))" "st' = cleanup s"
  using assms by (auto simp: resolveDependencies_def split: option.splits sum.splits)

lemma cleanup_sameRegistry:
  assumes "sameRegistry (st\<lparr>queue := q\<rparr>) s"
  shows "modules (cleanup s) = base (modules st) \<and> conditionalModules (cleanup s) = conditionalModules st
       \<and> queue (cleanup s) = [] \<and> result (cleanup s) = []"
  using assms by (simp add: cleanup_def sameRegistry_def base_def)

lemma resolveDependencies_cleanup:
  assumes "resolveDependencies fuel request st = Some (x, st')"
  shows "modules st' = base (modules st) \<and> conditionalModules st' = conditionalModules st
       \<and> queue st' = [] \<and> result st' = []"
  using assms
proof (cases rule: resolveDependencies_cases)
  case (failed e s)
  from resolveLoop_sameRegistry [OF failed(1)] failed(3) show ?thesis
    by (simp add: cleanup_sameRegistry)
next
  case (returned s)
  from resolveLoop_sameRegistry [OF returned(1)] returned(3) show ?thesis
    by (simp add: cleanup_sameRegistry)
qed

lemma clean_sets:
  assumes "clean st"
  shows "marked st = {}" "tmpMarked st = {}" "condMarked st = {}" "result st = []"
  using assms by (auto simp: clean_def flagsClear_def marked_def tmpMarked_def condMarked_def)

lemma passInv_start:
  assumes "clean st" "namesOk (modules st)"
  shows "passInv (st\<lparr>queue := request\<rparr>)"
  using assms clean_sets [OF assms(1)] by (intro passInvI) simp_all

lemma resolveLoop_returned:
  assumes "clean st" "namesOk (modules st)"
    "resolveLoop fuel 0 (st\<lparr>queue := request\<rparr>) = Some (Inr s)"
  shows "passInv s" and "grows (st\<lparr>queue := request\<rparr>) s" and "set (queue s) \<subseteq> marked s"
    and "set request \<subseteq> marked s"
proof -
  let ?st0 = "st\<lparr>queue := request\<rparr>"
  have "passInv s \<and> frame ?st0 s \<and> set (queue s) \<subseteq> marked s"
    by (rule resolveLoop_passInv [OF passInv_start [OF assms(1,2)] _ _ assms(3)])
       (simp_all add: clean_sets [OF assms(1)])
  then show "passInv s" and g: "grows ?st0 s" and q: "set (queue s) \<subseteq> marked s"
    by (simp_all add: frame_def)
  from grows_queue [OF g] q show "set request \<subseteq> marked s" by auto
qed

lemma marked_closed:
  assumes "passInv s" "set (queue s) \<subseteq> marked s" "m \<in> marked s"
    "(m, x) \<in> edges (modules s) (conditionalModules s)"
  shows "x \<in> marked s"
proof -
  note i = passInvD [OF assms(1)]
  from assms(4) consider (dep) "x \<in> set (depsOf (modules s) m)"
    | (act) "x \<in> activated (modules s) (conditionalModules s) m"
    by (auto simp: edges_def depRel_def)
  then show ?thesis
  proof cases
    case dep
    from assms(3) i(2) obtain xs ys where "result s = xs @ m # ys"
      by (auto dest: split_list)
    from i(5) [OF this] dep i(2) this show ?thesis by auto
  next
    case act
    then have "conditionalModules s m \<noteq> None" by (auto simp: activated_def)
    with i(7) [of m] assms(3) have "m \<in> condMarked s" by auto
    from i(6) [OF this] act assms(2) show ?thesis by auto
  qed
qed

lemma reachable_marked:
  assumes "passInv s" "set (queue s) \<subseteq> marked s" "set request \<subseteq> marked s"
  shows "reachable (modules s) (conditionalModules s) request \<subseteq> marked s"
proof
  fix x
  assume "x \<in> reachable (modules s) (conditionalModules s) request"
  then obtain r where r: "r \<in> set request"
    "(r, x) \<in> (edges (modules s) (conditionalModules s))\<^sup>*"
    by (auto simp: reachable_def)
  from r(2) show "x \<in> marked s"
  proof (induction rule: rtrancl_induct)
    case base
    with r(1) assms(3) show ?case by auto
  next
    case (step y z)
    from marked_closed [OF assms(1,2) step.IH step.hyps(2)] show ?case .
  qed
qed

lemma passInv_dependencyFirst:
  assumes "passInv s"
  shows "dependencyFirst (modules s) (rev (result s))"
  unfolding dependencyFirst_def
proof (intro allI impI ballI)
  fix i d
  let ?out = "rev (result s)"
  assume i: "i < length ?out" and d: "d \<in> set (depsOf (modules s) (?out ! i))"
  from i have "?out = take i ?out @ ?out ! i # drop (Suc i) ?out"
    by (rule id_take_nth_drop)
  then have "rev ?out = rev (drop (Suc i) ?out) @ ?out ! i # rev (take i ?out)"
    by (metis rev.simps(2) rev_append append.assoc append_Cons append_Nil)
  then have "result s = rev (drop (Suc i) ?out) @ ?out ! i # rev (take i ?out)"
    by simp
  from passInvD(5) [OF assms this] d have "d \<in> set (take i ?out)" by auto
  then obtain j where "j < length (take i ?out)" "take i ?out ! j = d"
    by (auto simp: in_set_conv_nth)
  then have "j < i" "?out ! j = d" by simp_all
  then show "\<exists>j<i. ?out ! j = d" by blast
qed

lemma grows_edges:
  "grows st st' \<Longrightarrow> edges (modules st') (conditionalModules st')
     = edges (modules st) (conditionalModules st)"
  by (simp add: edges_def grows_depRel grows_activated)

lemma grows_reachable:
  "grows st st' \<Longrightarrow> reachable (modules st') (conditionalModules st') request
     = reachable (modules st) (conditionalModules st) request"
  by (simp add: reachable_def grows_edges)

lemma resolveDependencies_returned:
  assumes "clean st" "namesOk (modules st)"
    "resolveDependencies fuel request st = Some (Inr out, st')"
  shows "distinct out" and "dependencyFirst (modules st) out"
    and "reachable (modules st) (conditionalModules st) request \<subseteq> set out"
    and "set request \<subseteq> set out"
proof -
  from assms(3) obtain s where s: "resolveLoop fuel 0 (st\<lparr>queue := request\<rparr>) = Some (Inr s)"
    "out = rev (result s)"
    by (cases rule: resolveDependencies_cases) auto
  note r = resolveLoop_returned [OF assms(1,2) s(1)]
  note i = passInvD [OF r(1)]
  show "distinct out" using i(3) s(2) by simp
  have m: "set out = marked s" using i(2) s(2) by simp
  show "dependencyFirst (modules st) out"
    using passInv_dependencyFirst [OF r(1)] s(2) grows_depsOf [OF r(2)]
    by (simp add: dependencyFirst_def)
  show "reachable (modules st) (conditionalModules st) request \<subseteq> set out"
    using reachable_marked [OF r(1,3,4)] grows_reachable [OF r(2), of request] m by simp
  show "set request \<subseteq> set out" using r(4) m by simp
qed

lemma dependencyFirst_trancl:
  assumes "dependencyFirst ms out" "(x, y) \<in> (depRel ms)\<^sup>+" "i < length out" "out ! i = x"
  shows "\<exists>j<i. out ! j = y"
  using assms(2,3,4)
proof (induction arbitrary: i rule: trancl_induct)
  case (base y)
  with assms(1) show ?case by (auto simp: dependencyFirst_def depRel_def)
next
  case (step y z)
  from step.IH [OF step.prems] obtain j where j: "j < i" "out ! j = y" by blast
  with step.prems(1) have "j < length out" by simp
  with assms(1) step.hyps(2) j(2) obtain j' where "j' < j" "out ! j' = z"
    by (auto simp: dependencyFirst_def depRel_def)
  with j(1) show ?case by (auto intro: exI [of _ j'])
qed

lemma dependencyFirst_no_cycle:
  assumes "dependencyFirst ms out" "distinct out" "m \<in> set out"
  shows "(m, m) \<notin> (depRel ms)\<^sup>+"
proof
  assume c: "(m, m) \<in> (depRel ms)\<^sup>+"
  from assms(3) obtain i where i: "i < length out" "out ! i = m"
    by (auto simp: in_set_conv_nth)
  from dependencyFirst_trancl [OF assms(1) c i] obtain j where j: "j < i" "out ! j = m"
    by blast
  with i assms(2) show False by (auto simp: nth_eq_iff_index_eq)
qed

lemma resolveDependencies_progress:
  assumes "wellFormed st" "clean st" "set request \<subseteq> dom (modules st)"
    "fuelBound 0 (st\<lparr>queue := request\<rparr>) < fuel"
  shows "\<exists>x st'. resolveDependencies fuel request st = Some (x, st')
           \<and> (case x of Inl e \<Rightarrow> cycleError st e | Inr out \<Rightarrow> True)"
proof -
  let ?st0 = "st\<lparr>queue := request\<rparr>"
  have w: "wellFormed ?st0" using assms(1) by (simp add: wellFormed_def)
  have "\<exists>r. resolveLoop fuel 0 ?st0 = Some r \<and> genuine ?st0 r"
    by (rule resolveLoop_progress [OF w _ _ assms(4)])
       (use assms(3) clean_sets [OF assms(2)] in simp_all)
  then obtain r where r: "resolveLoop fuel 0 ?st0 = Some r" "genuine ?st0 r" by blast
  show ?thesis
  proof (cases r)
    case (Inl a)
    obtain e s where a: "a = (e, s)" by (cases a)
    with r Inl show ?thesis
      by (simp add: resolveDependencies_def genuine_def cycleError_def)
  next
    case (Inr s)
    with r show ?thesis by (simp add: resolveDependencies_def)
  qed
qed

section \<open>ConfigParser: what the registry holds after parsing\<close>

lemma registerConditionalModule_Inr:
  assumes "registerConditionalModule e idx = Inr idx'"
  shows "idx' = (case condition e of
                   None \<Rightarrow> idx
                 | Some c \<Rightarrow> idx(trigger c \<mapsto>
                       (case idx (trigger c) of None \<Rightarrow> [] | Some t \<Rightarrow> t) @ [name e]))"
  using assms
  by (auto simp: registerConditionalModule_def getProperty_Own_iff getProperty_Missing_iff
      split: option.splits property.splits)

lemma registerConditionalModule_progress:
  assumes "\<And>c. condition e = Some c \<Longrightarrow> trigger c \<notin> set inheritedNames"
  shows "\<exists>idx'. registerConditionalModule e idx = Inr idx'"
  using assms
  by (auto simp: registerConditionalModule_def getProperty_plain split: option.splits)

lemma addModule_progress:
  assumes "\<And>c. condition e = Some c \<Longrightarrow> trigger c \<notin> set inheritedNames"
  shows "\<exists>st'. addModule e st = Inr st'"
proof -
  from registerConditionalModule_progress [of "resolveDescriptorPaths e" "conditionalModules st"]
    assms
  obtain idx' where "registerConditionalModule (resolveDescriptorPaths e) (conditionalModules st)
      = Inr idx'" by auto
  then show ?thesis by (simp add: addModule_def Let_def)
qed

lemma addModule_index:
  assumes "addModule e st = Inr st'"
  shows "conditionalModules st'
           = (case condition e of
                None \<Rightarrow> conditionalModules st
              | Some c \<Rightarrow> (conditionalModules st)(trigger c \<mapsto>
                    (case conditionalModules st (trigger c) of None \<Rightarrow> [] | Some t \<Rightarrow> t)
                      @ [name e]))"
  using registerConditionalModule_Inr [OF addModule_Inr(4) [OF assms]]
  by (simp split: option.splits)

lemma addModule_index_keeps:
  assumes "addModule e st = Inr st'" "conditionalModules st k = Some t"
  shows "\<exists>t'. conditionalModules st' k = Some t' \<and> set t \<subseteq> set t'"
  using assms(2) by (auto simp: addModule_index [OF assms(1)] split: option.splits)

lemma addModule_index_adds:
  assumes "addModule e st = Inr st'" "condition e = Some cnd"
  shows "\<exists>t. conditionalModules st' (trigger cnd) = Some t \<and> name e \<in> set t"
  using assms(2) by (simp add: addModule_index [OF assms(1)])

lemma addModule_index_cases:
  assumes "addModule e st = Inr st'" "conditionalModules st' k = Some t" "c \<in> set t"
  shows "(\<exists>t'. conditionalModules st k = Some t' \<and> c \<in> set t')
       \<or> (\<exists>cnd. condition e = Some cnd \<and> k = trigger cnd \<and> c = name e)"
  using assms(2,3)
  by (auto simp: addModule_index [OF assms(1)] split: option.splits if_splits)

lemma addModule_indexed:
  assumes "indexed st" "addModule e st = Inr st'"
  shows "indexed st'"
  unfolding indexed_def
proof (intro allI impI)
  fix k d cnd
  let ?e = "resolveDescriptorPaths e"
  note m = addModule_Inr(1) [OF assms(2)]
  assume d: "modules st' k = Some d" and c: "condition d = Some cnd"
  show "\<exists>t. conditionalModules st' (trigger cnd) = Some t \<and> k \<in> set t"
  proof (cases "k = name e")
    case True
    with d have "d = ?e" by (simp add: m)
    with c have "condition e = Some cnd" by simp
    from addModule_index_adds [OF assms(2) this] True show ?thesis by simp
  next
    case False
    with d have "modules st k = Some d" by (simp add: m)
    with assms(1) c obtain t where "conditionalModules st (trigger cnd) = Some t" "k \<in> set t"
      unfolding indexed_def by blast
    with addModule_index_keeps [OF assms(2), of "trigger cnd" t] show ?thesis by auto
  qed
qed

lemma addModule_namesOk:
  assumes "namesOk (modules st)" "addModule e st = Inr st'"
  shows "namesOk (modules st')"
  using assms(1) by (auto simp: namesOk_def addModule_Inr(1) [OF assms(2)])

lemma addModule_clean:
  assumes "clean st" "\<not> mark e" "\<not> tmpMark e" "\<not> conditionalMark e" "addModule e st = Inr st'"
  shows "clean st'"
  using assms(1-4)
  by (auto simp: clean_def flagsClear_def addModule_Inr [OF assms(5)]
      resolveDescriptorPaths_def split: if_splits)

lemma addModule_indexOk:
  assumes "indexOk (modules st) (conditionalModules st)" "name e \<notin> dom (modules st)"
    "addModule e st = Inr st'"
  shows "indexOk (modules st') (conditionalModules st')"
  unfolding indexOk_def
proof (intro allI impI)
  fix k t c
  note m = addModule_Inr(1) [OF assms(3)]
  assume t: "conditionalModules st' k = Some t" and c: "c \<in> set t"
  from addModule_index_cases [OF assms(3) t c]
  show "\<exists>d. modules st' c = Some d \<and> condition d \<noteq> None"
  proof
    assume "\<exists>t'. conditionalModules st k = Some t' \<and> c \<in> set t'"
    with assms(1) obtain d where d: "modules st c = Some d" "condition d \<noteq> None"
      unfolding indexOk_def by blast
    with assms(2) have "c \<noteq> name e" by auto
    with d show ?thesis by (simp add: m)
  next
    assume "\<exists>cnd. condition e = Some cnd \<and> k = trigger cnd \<and> c = name e"
    then show ?thesis by (auto simp: m)
  qed
qed

lemma dom_addModule:
  assumes "addModule e st = Inr st'"
  shows "dom (modules st') = insert (name e) (dom (modules st))"
  by (simp add: addModule_Inr(1) [OF assms])

lemma parseModules_Cons_cases:
  assumes "parseModules ((k, d) # rest) st = Inr st'"
  obtains s where "addModule (d\<lparr>name := k\<rparr>) st = Inr s" "parseModules rest s = Inr st'"
  using assms by (auto split: sum.splits)

lemma parseModules_fields:
  assumes "parseModules cfg st = Inr st'"
  shows "queue st' = queue st \<and> result st' = result st"
  using assms
proof (induction cfg arbitrary: st)
  case Nil
  then show ?case by simp
next
  case (Cons x cfg)
  obtain k d where x: "x = (k, d)" by (cases x)
  from Cons.prems [unfolded x] obtain s where
    s: "addModule (d\<lparr>name := k\<rparr>) st = Inr s" "parseModules cfg s = Inr st'"
    by (rule parseModules_Cons_cases)
  from Cons.IH [OF s(2)] addModule_Inr(2,3) [OF s(1)] show ?case by simp
qed

lemma parseModules_registry:
  assumes "namesOk (modules st)" "clean st" "indexed st"
    "\<forall>(k, d)\<in>set cfg. \<not> mark d \<and> \<not> tmpMark d \<and> \<not> conditionalMark d"
    "parseModules cfg st = Inr st'"
  shows "namesOk (modules st') \<and> clean st' \<and> indexed st'"
  using assms
proof (induction cfg arbitrary: st)
  case Nil
  then show ?case by simp
next
  case (Cons x cfg)
  obtain k d where x: "x = (k, d)" by (cases x)
  from Cons.prems(5) [unfolded x] obtain s where
    s: "addModule (d\<lparr>name := k\<rparr>) st = Inr s" "parseModules cfg s = Inr st'"
    by (rule parseModules_Cons_cases)
  have "namesOk (modules s)" by (rule addModule_namesOk [OF Cons.prems(1) s(1)])
  moreover have "clean s" using Cons.prems(2,4) x by (intro addModule_clean [OF _ _ _ _ s(1)]) auto
  moreover have "indexed s" by (rule addModule_indexed [OF Cons.prems(3) s(1)])
  ultimately show ?case using Cons.IH [of s] Cons.prems(4) s(2) by simp
qed

lemma emptyState_registry:
  "namesOk (modules emptyState)" "clean emptyState" "indexed emptyState"
  by (simp_all add: namesOk_def clean_def flagsClear_def indexed_def emptyState_def)

lemma parseModules_indexOk:
  assumes "indexOk (modules st) (conditionalModules st)" "finite (dom (modules st))"
    "plainNames (modules st)" "distinct (map fst cfg)" "fst ` set cfg \<inter> dom (modules st) = {}"
    "fst ` set cfg \<inter> set inheritedNames = {}" "parseModules cfg st = Inr st'"
  shows "indexOk (modules st') (conditionalModules st') \<and> finite (dom (modules st'))
       \<and> plainNames (modules st')"
  using assms
proof (induction cfg arbitrary: st)
  case Nil
  then show ?case by simp
next
  case (Cons x cfg)
  obtain k d where x: "x = (k, d)" by (cases x)
  from Cons.prems(7) [unfolded x] obtain s where
    s: "addModule (d\<lparr>name := k\<rparr>) st = Inr s" "parseModules cfg s = Inr st'"
    by (rule parseModules_Cons_cases)
  have k: "k \<notin> dom (modules st)" using Cons.prems(5) x by auto
  have dom: "dom (modules s) = insert k (dom (modules st))"
    using dom_addModule [OF s(1)] by simp
  have "indexOk (modules s) (conditionalModules s)"
    by (rule addModule_indexOk [OF Cons.prems(1) _ s(1)]) (use k in simp)
  moreover have "finite (dom (modules s))"
    using Cons.prems(2) by (simp add: dom)
  moreover have "plainNames (modules s)"
    using Cons.prems(3,6) x by (auto simp: plainNames_def dom)
  moreover have "distinct (map fst cfg)" using Cons.prems(4) by simp
  moreover have "fst ` set cfg \<inter> dom (modules s) = {}"
    using Cons.prems(4,5) x by (auto simp: dom)
  moreover have "fst ` set cfg \<inter> set inheritedNames = {}"
    using Cons.prems(6) by auto
  ultimately show ?case using Cons.IH [of s] s(2) by simp
qed

lemma parseModules_progress:
  assumes "\<forall>(k, d)\<in>set cfg. \<forall>c. condition d = Some c \<longrightarrow> trigger c \<notin> set inheritedNames"
  shows "\<exists>st'. parseModules cfg st = Inr st'"
  using assms
proof (induction cfg arbitrary: st)
  case Nil
  then show ?case by simp
next
  case (Cons x cfg)
  obtain k d where x: "x = (k, d)" by (cases x)
  have "\<exists>s. addModule (d\<lparr>name := k\<rparr>) st = Inr s"
    by (rule addModule_progress) (use Cons.prems x in auto)
  then obtain s where s: "addModule (d\<lparr>name := k\<rparr>) st = Inr s" by blast
  from Cons.IH [of s] Cons.prems obtain st' where "parseModules cfg s = Inr st'" by auto
  with s x show ?case by simp
qed

text \<open>
  The registry the ConfigParser builds from a configuration is well-formed as soon as
  no key and no trigger of it is an inherited name and every dependency in it is
  registered: the keys of the \<^verbatim>\<open>modules\<close> object are distinct, and a configuration sets
  no traversal flag.
\<close>

lemma configured_wellFormed:
  assumes "distinct (map fst cfg)"
    "\<forall>(k, d)\<in>set cfg. \<not> mark d \<and> \<not> tmpMark d \<and> \<not> conditionalMark d"
    "\<forall>(k, d)\<in>set cfg. \<forall>c. condition d = Some c \<longrightarrow> trigger c \<notin> set inheritedNames"
    "fst ` set cfg \<inter> set inheritedNames = {}"
    "closedDeps (modules (configured cfg))"
  shows "wellFormed (configured cfg)" and "clean (configured cfg)"
    and "indexed (configured cfg)"
proof -
  from parseModules_progress [OF assms(3)] obtain st' where
    st': "parseModules cfg emptyState = Inr st'" by blast
  then have c: "configured cfg = st'" by (simp add: configured_def)
  have "indexOk (modules emptyState) (conditionalModules emptyState)"
    "finite (dom (modules emptyState))" "plainNames (modules emptyState)"
    "fst ` set cfg \<inter> dom (modules emptyState) = {}"
    by (simp_all add: indexOk_def plainNames_def emptyState_def)
  from parseModules_indexOk [OF this(1,2,3) assms(1) this(4) assms(4) st']
    parseModules_registry [OF emptyState_registry assms(2) st'] assms(5)
  show "wellFormed (configured cfg)" and "clean (configured cfg)"
    and "indexed (configured cfg)"
    by (simp_all add: wellFormed_def c)
qed

lemma configured_fields:
  assumes "\<forall>(k, d)\<in>set cfg. \<forall>c. condition d = Some c \<longrightarrow> trigger c \<notin> set inheritedNames"
  shows "queue (configured cfg) = []" and "result (configured cfg) = []"
proof -
  from parseModules_progress [OF assms] obtain st' where
    st': "parseModules cfg emptyState = Inr st'" by blast
  from parseModules_fields [OF st'] st'
  show "queue (configured cfg) = []" and "result (configured cfg) = []"
    by (simp_all add: configured_def emptyState_def)
qed

section \<open>DependencyBuilder: an acyclic registry\<close>

lemma acyclic_not_cycleError:
  assumes "acyclic (depRel (modules st))"
  shows "\<not> cycleError st e"
  using assms by (auto simp: cycleError_def acyclic_def)

text \<open>
  C1 (as amended). On a registry between two passes whose modules are stored under
  their names, none of them under a name every object inherits from
  \<^verbatim>\<open>Object.prototype\<close>, where every dependency other than \<^verbatim>\<open>"exports"\<close> and every name of
  the conditional index is registered (the indexed ones with a condition) and the
  dependencies form no cycle, and for every request of registered names:
  \<^verbatim>\<open>resolveDependencies\<close> returns (with any fuel from some bound on) one ordering; every
  dependency of a module of the ordering other than \<^verbatim>\<open>"exports"\<close> stands earlier in it;
  no name occurs twice; and every module reachable from the request, through
  dependencies and activated conditional modules, is in it.
\<close>

theorem resolveDependencies_acyclic:
  assumes "wellFormed st" "clean st" "acyclic (depRel (modules st))"
    "set request \<subseteq> dom (modules st)"
  shows "\<exists>N out st'. (\<forall>fuel\<ge>N. resolveDependencies fuel request st = Some (Inr out, st'))
           \<and> dependencyFirst (modules st) out \<and> distinct out
           \<and> reachable (modules st) (conditionalModules st) request \<subseteq> set out"
proof -
  let ?N = "Suc (fuelBound 0 (st\<lparr>queue := request\<rparr>))"
  from resolveDependencies_progress [OF assms(1,2,4), of ?N]
  obtain x st' where x: "resolveDependencies ?N request st = Some (x, st')"
    "case x of Inl e \<Rightarrow> cycleError st e | Inr out \<Rightarrow> True"
    by auto
  from x(2) acyclic_not_cycleError [OF assms(3)] obtain out where out: "x = Inr out"
    by (cases x) auto
  have n: "namesOk (modules st)" using assms(1) by (simp add: wellFormed_def)
  note r = resolveDependencies_returned [OF assms(2) n x(1) [unfolded out]]
  have "\<forall>fuel\<ge>?N. resolveDependencies fuel request st = Some (Inr out, st')"
    using resolveDependencies_mono [OF x(1) [unfolded out]] by blast
  with r show ?thesis by blast
qed

lemmas configured_simps =
  configured_def emptyState_def addModule_def registerConditionalModule_def
  resolveDescriptorPaths_def emptyDescriptor_def resolvePath_def Let_def
  getProperty_def objectPrototype_def

lemmas pass_simps =
  resolveDependencies_def numeral_eq_Suc processConditionalModules_def triggersOf_def
  getProperty_def objectPrototype_def emptyDescriptor_def
  setTmpMark_def setMarked_def setConditionalMark_def updateDescriptor_def skipExports_def
  visitInherited_def processConditionalInherited_def nameOf_def

lemma danglingRegistry_modules:
  "modules danglingRegistry = [''app'' \<mapsto> emptyDescriptor\<lparr>name := ''app'', dependencies := [''b'']\<rparr>]"
  by (simp add: danglingRegistry_def configured_simps)

lemma danglingRegistry_fields:
  "conditionalModules danglingRegistry = Map.empty" "result danglingRegistry = []"
  by (simp_all add: danglingRegistry_def configured_simps)

lemma danglingRegistry_depRel: "depRel (modules danglingRegistry) = {(''app'', ''b'')}"
  by (auto simp: depRel_def depsOf_def danglingRegistry_modules emptyDescriptor_def
      split: if_splits)

lemma constructorRegistry_modules:
  "modules constructorRegistry = [''constructor'' \<mapsto> emptyDescriptor\<lparr>name := ''constructor''\<rparr>]"
  by (simp add: constructorRegistry_def configured_simps)

lemma constructorRegistry_fields:
  "conditionalModules constructorRegistry = Map.empty" "result constructorRegistry = []"
  by (simp_all add: constructorRegistry_def configured_simps)

lemma constructorRegistry_depRel: "depRel (modules constructorRegistry) = {}"
  by (auto simp: depRel_def depsOf_def constructorRegistry_modules emptyDescriptor_def
      split: if_splits)

text \<open>
  C1 (counterexample). The registry of the configuration
  \<^verbatim>\<open>{app: {dependencies: ["b"]}}\<close> is acyclic and holds the requested name \<^verbatim>\<open>app\<close>, yet the
  pass throws a TypeError: \<^verbatim>\<open>_visit\<close> is called with \<^verbatim>\<open>modules["b"]\<close>, which is undefined.
  So does the pass on the registry of \<^verbatim>\<open>{constructor: {dependencies: []}}\<close>, where nothing
  is left unregistered: the trigger list read for the module \<^verbatim>\<open>constructor\<close> is the
  inherited function \<^verbatim>\<open>Object\<close>, of length 1, whose element is \<^verbatim>\<open>undefined\<close>.
\<close>

theorem resolveDependencies_dangling_counterexample:
  "acyclic (depRel (modules danglingRegistry))
   \<and> set [''app''] \<subseteq> dom (modules danglingRegistry)
   \<and> (\<exists>st'. resolveDependencies 5 [''app''] danglingRegistry = Some (Inl TypeError, st'))
   \<and> acyclic (depRel (modules constructorRegistry))
   \<and> set [''constructor''] \<subseteq> dom (modules constructorRegistry)
   \<and> closedDeps (modules constructorRegistry)
   \<and> indexOk (modules constructorRegistry) (conditionalModules constructorRegistry)
   \<and> clean constructorRegistry
   \<and> (\<exists>st'. resolveDependencies 5 [''constructor''] constructorRegistry
               = Some (Inl TypeError, st'))"
proof -
  have "acyclic (depRel (modules danglingRegistry))"
    by (rule acyclicI_order [where f = "length"]) (simp add: danglingRegistry_depRel)
  moreover have "\<exists>st'. resolveDependencies 5 [''app''] danglingRegistry = Some (Inl TypeError, st')"
    by (simp add: pass_simps danglingRegistry_modules danglingRegistry_fields)
  moreover have "acyclic (depRel (modules constructorRegistry))"
    by (simp add: constructorRegistry_depRel acyclic_def)
  moreover have "closedDeps (modules constructorRegistry)"
    by (auto simp: closedDeps_def depsOf_def constructorRegistry_modules emptyDescriptor_def
        split: if_splits)
  moreover have "indexOk (modules constructorRegistry) (conditionalModules constructorRegistry)"
    by (simp add: indexOk_def constructorRegistry_fields)
  moreover have "clean constructorRegistry"
    by (simp add: clean_def flagsClear_def constructorRegistry_modules constructorRegistry_fields
        emptyDescriptor_def)
  moreover have "\<exists>st'. resolveDependencies 5 [''constructor''] constructorRegistry
               = Some (Inl TypeError, st')"
    by (simp add: pass_simps constructorRegistry_modules constructorRegistry_fields)
  ultimately show ?thesis
    by (simp add: danglingRegistry_modules constructorRegistry_modules)
qed

lemma exampleModules_modules:
  "modules exampleModules =
     [''app'' \<mapsto> emptyDescriptor\<lparr>name := ''app'', dependencies := [''util'', ''exports'']\<rparr>,
      ''util'' \<mapsto> emptyDescriptor\<lparr>name := ''util'', dependencies := [''core'']\<rparr>,
      ''core'' \<mapsto> emptyDescriptor\<lparr>name := ''core''\<rparr>,
      ''extra'' \<mapsto> emptyDescriptor\<lparr>name := ''extra'', dependencies := [''core''],
                      condition := Some \<lparr>trigger = ''app'', test = True\<rparr>\<rparr>]"
  by (simp add: exampleModules_def configured_simps)

lemma exampleModules_index:
  "conditionalModules exampleModules = [''app'' \<mapsto> [''extra'']]"
  by (simp add: exampleModules_def configured_simps)

lemma exampleModules_result: "result exampleModules = []" "queue exampleModules = []"
  "inheritedTmpMark exampleModules = {}" "inheritedConditionalMark exampleModules = {}"
  by (simp_all add: exampleModules_def configured_simps)

lemma exampleModules_depsOf:
  "depsOf (modules exampleModules) =
     (\<lambda>k. if k = ''app'' then [''util''] else if k = ''util'' then [''core'']
          else if k = ''extra'' then [''core''] else [])"
  by (auto simp: depsOf_def exampleModules_modules emptyDescriptor_def fun_eq_iff)

lemma exampleModules_closedDeps: "closedDeps (modules exampleModules)"
  by (auto simp: closedDeps_def exampleModules_depsOf) (simp_all add: exampleModules_modules)

lemma exampleModules_wellFormed: "wellFormed exampleModules"
  unfolding exampleModules_def
  by (rule configured_wellFormed(1);
      (rule exampleModules_closedDeps [unfolded exampleModules_def]
       | simp add: emptyDescriptor_def inheritedNames_def objectPrototype_def))

lemma exampleModules_clean: "clean exampleModules"
  unfolding exampleModules_def
  by (rule configured_wellFormed(2);
      (rule exampleModules_closedDeps [unfolded exampleModules_def]
       | simp add: emptyDescriptor_def inheritedNames_def objectPrototype_def))

lemma exampleModules_acyclic: "acyclic (depRel (modules exampleModules))"
  by (rule acyclicI_order [where f = "\<lambda>k. if k = ''app'' then 3 else if k = ''util'' then 2
        else if k = ''extra'' then 1 else (0::nat)"])
     (auto simp: depRel_def exampleModules_depsOf split: if_splits)

lemma exampleModules_run:
  "map_option fst (resolveDependencies 6 [''app''] exampleModules)
     = Some (Inr [''core'', ''util'', ''app'', ''extra''])"
  by (simp add: pass_simps exampleModules_modules exampleModules_index exampleModules_result)

text \<open>
  Witness of C1: \<^verbatim>\<open>app\<close> depends on \<^verbatim>\<open>util\<close> and \<^verbatim>\<open>exports\<close>, \<^verbatim>\<open>util\<close> on \<^verbatim>\<open>core\<close>, and
  \<^verbatim>\<open>extra\<close> (which depends on \<^verbatim>\<open>core\<close>) is activated by \<^verbatim>\<open>app\<close>.
\<close>

theorem resolveDependencies_acyclic_witness:
  "wellFormed exampleModules \<and> clean exampleModules
   \<and> acyclic (depRel (modules exampleModules))
   \<and> set [''app''] \<subseteq> dom (modules exampleModules)
   \<and> (\<exists>N out st'.
         (\<forall>fuel\<ge>N. resolveDependencies fuel [''app''] exampleModules = Some (Inr out, st'))
         \<and> dependencyFirst (modules exampleModules) out \<and> distinct out
         \<and> reachable (modules exampleModules) (conditionalModules exampleModules) [''app'']
             \<subseteq> set out)
   \<and> map_option fst (resolveDependencies 6 [''app''] exampleModules)
       = Some (Inr [''core'', ''util'', ''app'', ''extra''])"
proof -
  have d: "set [''app''] \<subseteq> dom (modules exampleModules)"
    by (simp add: exampleModules_modules)
  from resolveDependencies_acyclic [OF exampleModules_wellFormed exampleModules_clean
      exampleModules_acyclic d]
  show ?thesis
    using exampleModules_wellFormed exampleModules_clean exampleModules_acyclic d
      exampleModules_run by blast
qed

section \<open>DependencyBuilder: a cycle\<close>

lemma resolveDependencies_no_cycle:
  assumes "clean st" "namesOk (modules st)"
    "resolveDependencies fuel request st = Some (Inr out, st')"
    "m \<in> reachable (modules st) (conditionalModules st) request"
  shows "(m, m) \<notin> (depRel (modules st))\<^sup>+"
proof -
  note r = resolveDependencies_returned [OF assms(1,2,3)]
  from r(3) assms(4) have "m \<in> set out" by auto
  from dependencyFirst_no_cycle [OF r(2,1) this] show ?thesis .
qed

text \<open>
  C2 (as amended). After every call of \<^verbatim>\<open>resolveDependencies\<close> that comes to an end,
  whether it returns or throws, every descriptor of the registry has \<^verbatim>\<open>mark\<close>,
  \<^verbatim>\<open>tmpMark\<close> and \<^verbatim>\<open>conditionalMark\<close> false and is otherwise as before, and queue and
  result are empty; a registry whose flags were clear is the same registry again. On a
  registry between two passes (flags clear, result empty) whose modules are stored
  under their names, none of them under a name every object inherits, where every
  dependency other than \<^verbatim>\<open>"exports"\<close> and every name of the conditional index is
  registered (the indexed ones with a condition), and for a request of registered
  names, the call comes to an end; and when a module reachable from the request lies on
  a dependency cycle, it ends with the cycle error, which names a module that lies on a
  cycle.
\<close>

theorem resolveDependencies_cycle:
  "(\<forall>fuel x st'. resolveDependencies fuel request st = Some (x, st') \<longrightarrow>
      flagsClear (modules st') \<and> modules st' = base (modules st)
      \<and> conditionalModules st' = conditionalModules st \<and> queue st' = [] \<and> result st' = []
      \<and> (flagsClear (modules st) \<longrightarrow> modules st' = modules st))
   \<and> (wellFormed st \<and> clean st \<and> set request \<subseteq> dom (modules st) \<longrightarrow>
        (\<exists>N x st'. \<forall>fuel\<ge>N. resolveDependencies fuel request st = Some (x, st')))
   \<and> (wellFormed st \<and> clean st \<and> set request \<subseteq> dom (modules st)
        \<and> (\<exists>m\<in>reachable (modules st) (conditionalModules st) request.
              (m, m) \<in> (depRel (modules st))\<^sup>+) \<longrightarrow>
        (\<exists>N m st'.
           (\<forall>fuel\<ge>N. resolveDependencies fuel request st = Some (Inl (CycleError m), st'))
           \<and> (m, m) \<in> (depRel (modules st))\<^sup>+ \<and> modules st' = modules st))"
proof (intro conjI allI impI)
  fix fuel x st'
  assume a: "resolveDependencies fuel request st = Some (x, st')"
  note c = resolveDependencies_cleanup [OF a]
  from c show "flagsClear (modules st')" by (simp add: flagsClear_base)
  from c show "modules st' = base (modules st)" by simp
  from c show "conditionalModules st' = conditionalModules st" by simp
  from c show "queue st' = []" by simp
  from c show "result st' = []" by simp
  assume "flagsClear (modules st)"
  with c show "modules st' = modules st" by (simp add: base_flagsClear)
next
  assume a: "wellFormed st \<and> clean st \<and> set request \<subseteq> dom (modules st)"
  let ?N = "Suc (fuelBound 0 (st\<lparr>queue := request\<rparr>))"
  from a resolveDependencies_progress [of st request ?N]
  obtain x st' where x: "resolveDependencies ?N request st = Some (x, st')" by auto
  have "\<forall>fuel\<ge>?N. resolveDependencies fuel request st = Some (x, st')"
    using resolveDependencies_mono [OF x] by blast
  then show "\<exists>N x st'. \<forall>fuel\<ge>N. resolveDependencies fuel request st = Some (x, st')"
    by blast
next
  assume a: "wellFormed st \<and> clean st \<and> set request \<subseteq> dom (modules st)
        \<and> (\<exists>m\<in>reachable (modules st) (conditionalModules st) request.
              (m, m) \<in> (depRel (modules st))\<^sup>+)"
  then have w: "wellFormed st" and c: "clean st" by simp_all
  from a obtain m0 where m0: "m0 \<in> reachable (modules st) (conditionalModules st) request"
    "(m0, m0) \<in> (depRel (modules st))\<^sup>+" by blast
  have n: "namesOk (modules st)" using w by (simp add: wellFormed_def)
  let ?N = "Suc (fuelBound 0 (st\<lparr>queue := request\<rparr>))"
  from a resolveDependencies_progress [of st request ?N]
  obtain x st' where x: "resolveDependencies ?N request st = Some (x, st')"
    "case x of Inl e \<Rightarrow> cycleError st e | Inr out \<Rightarrow> True" by auto
  have "\<exists>m. x = Inl (CycleError m) \<and> (m, m) \<in> (depRel (modules st))\<^sup>+"
  proof (cases x)
    case (Inl e)
    with x(2) show ?thesis by (simp add: cycleError_def)
  next
    case (Inr out)
    with resolveDependencies_no_cycle [OF c n _ m0(1)] x(1) m0(2) show ?thesis by blast
  qed
  then obtain m where m: "x = Inl (CycleError m)" "(m, m) \<in> (depRel (modules st))\<^sup>+"
    by blast
  have "modules st' = modules st"
    using resolveDependencies_cleanup [OF x(1)] c by (simp add: base_flagsClear clean_def)
  moreover have "\<forall>fuel\<ge>?N. resolveDependencies fuel request st = Some (Inl (CycleError m), st')"
    using resolveDependencies_mono [OF x(1)] m(1) by blast
  ultimately show "\<exists>N m st'.
           (\<forall>fuel\<ge>N. resolveDependencies fuel request st = Some (Inl (CycleError m), st'))
           \<and> (m, m) \<in> (depRel (modules st))\<^sup>+ \<and> modules st' = modules st"
    using m(2) by blast
qed

lemma cyclicModules_modules:
  "modules cyclicModules =
     [''ping'' \<mapsto> emptyDescriptor\<lparr>name := ''ping'', dependencies := [''pong'']\<rparr>,
      ''pong'' \<mapsto> emptyDescriptor\<lparr>name := ''pong'', dependencies := [''ping'']\<rparr>]"
  by (simp add: cyclicModules_def configured_simps)

lemma cyclicModules_fields:
  "conditionalModules cyclicModules = Map.empty" "result cyclicModules = []"
  "queue cyclicModules = []"
  by (simp_all add: cyclicModules_def configured_simps)

lemma cyclicModules_depsOf:
  "depsOf (modules cyclicModules) =
     (\<lambda>k. if k = ''ping'' then [''pong''] else if k = ''pong'' then [''ping''] else [])"
  by (auto simp: depsOf_def cyclicModules_modules emptyDescriptor_def fun_eq_iff)

lemma cyclicModules_closedDeps: "closedDeps (modules cyclicModules)"
  by (auto simp: closedDeps_def cyclicModules_depsOf) (simp_all add: cyclicModules_modules)

lemma cyclicModules_wellFormed: "wellFormed cyclicModules"
  unfolding cyclicModules_def
  by (rule configured_wellFormed(1);
      (rule cyclicModules_closedDeps [unfolded cyclicModules_def]
       | simp add: emptyDescriptor_def inheritedNames_def objectPrototype_def))

lemma cyclicModules_clean: "clean cyclicModules"
  unfolding cyclicModules_def
  by (rule configured_wellFormed(2);
      (rule cyclicModules_closedDeps [unfolded cyclicModules_def]
       | simp add: emptyDescriptor_def inheritedNames_def objectPrototype_def))

lemma cyclicModules_cycle: "(''ping'', ''ping'') \<in> (depRel (modules cyclicModules))\<^sup>+"
proof -
  have "(''ping'', ''pong'') \<in> depRel (modules cyclicModules)"
    "(''pong'', ''ping'') \<in> depRel (modules cyclicModules)"
    by (simp_all add: depRel_def cyclicModules_depsOf)
  then show ?thesis by (rule trancl_into_trancl [OF r_into_trancl])
qed

lemma cyclicModules_run:
  "map_option fst (resolveDependencies 6 [''ping''] cyclicModules)
     = Some (Inl (CycleError ''ping''))"
  by (simp add: pass_simps cyclicModules_modules cyclicModules_fields)

text \<open>Witness of C2: \<^verbatim>\<open>ping\<close> and \<^verbatim>\<open>pong\<close> depend on each other.\<close>

theorem resolveDependencies_cycle_witness:
  "wellFormed cyclicModules \<and> clean cyclicModules
   \<and> set [''ping''] \<subseteq> dom (modules cyclicModules)
   \<and> ''ping'' \<in> reachable (modules cyclicModules) (conditionalModules cyclicModules) [''ping'']
   \<and> (''ping'', ''ping'') \<in> (depRel (modules cyclicModules))\<^sup>+
   \<and> (\<exists>N m st'.
         (\<forall>fuel\<ge>N. resolveDependencies fuel [''ping''] cyclicModules
                       = Some (Inl (CycleError m), st'))
         \<and> (m, m) \<in> (depRel (modules cyclicModules))\<^sup>+
         \<and> modules st' = modules cyclicModules)
   \<and> map_option fst (resolveDependencies 6 [''ping''] cyclicModules)
       = Some (Inl (CycleError ''ping''))"
proof -
  have d: "set [''ping''] \<subseteq> dom (modules cyclicModules)"
    by (simp add: cyclicModules_modules)
  have r: "''ping'' \<in> reachable (modules cyclicModules) (conditionalModules cyclicModules) [''ping'']"
    by (simp add: reachable_def)
  from resolveDependencies_cycle [of "[''ping'']" cyclicModules]
  have "\<exists>N m st'.
         (\<forall>fuel\<ge>N. resolveDependencies fuel [''ping''] cyclicModules
                       = Some (Inl (CycleError m), st'))
         \<and> (m, m) \<in> (depRel (modules cyclicModules))\<^sup>+
         \<and> modules st' = modules cyclicModules"
    using cyclicModules_wellFormed cyclicModules_clean d r cyclicModules_cycle by blast
  then show ?thesis
    using cyclicModules_wellFormed cyclicModules_clean d r cyclicModules_cycle
      cyclicModules_run by blast
qed

lemma brokenCycle_modules:
  "modules brokenCycle =
     [''ping'' \<mapsto> emptyDescriptor\<lparr>name := ''ping'', dependencies := [''ghost'', ''ping'']\<rparr>]"
  by (simp add: brokenCycle_def configured_simps)

lemma brokenCycle_fields:
  "conditionalModules brokenCycle = Map.empty" "result brokenCycle = []"
  by (simp_all add: brokenCycle_def configured_simps)

lemma staleCycle_modules:
  "modules staleCycle =
     [''ping'' \<mapsto> emptyDescriptor\<lparr>name := ''ping'', dependencies := [''pong''], mark := True\<rparr>,
      ''pong'' \<mapsto> emptyDescriptor\<lparr>name := ''pong'', dependencies := [''ping'']\<rparr>]"
  by (rule ext) (simp add: staleCycle_def updateDescriptor_def cyclicModules_modules)

lemma staleCycle_fields:
  "conditionalModules staleCycle = Map.empty" "result staleCycle = []"
  by (simp_all add: staleCycle_def updateDescriptor_def cyclicModules_modules
      cyclicModules_fields)

lemma staleCycle_cycle: "(''ping'', ''ping'') \<in> (depRel (modules staleCycle))\<^sup>+"
proof -
  have "(''ping'', ''pong'') \<in> depRel (modules staleCycle)"
    "(''pong'', ''ping'') \<in> depRel (modules staleCycle)"
    by (simp_all add: depRel_def depsOf_def staleCycle_modules emptyDescriptor_def)
  then show ?thesis by (rule trancl_into_trancl [OF r_into_trancl])
qed

text \<open>
  C2 (counterexample). \<^verbatim>\<open>ping\<close> depends on the unregistered \<^verbatim>\<open>ghost\<close> and on itself: a
  cycle is reachable from the request, and the pass fails with a TypeError, not with
  the cycle error. Where \<^verbatim>\<open>ping\<close> and \<^verbatim>\<open>pong\<close> depend on each other and \<^verbatim>\<open>ping\<close> carries a
  \<^verbatim>\<open>mark\<close> when the pass begins, the pass returns the empty ordering. And a pass is not
  always as if it had not run: the request \<^verbatim>\<open>["constructor"]\<close>, on a registry without a
  module of that name, throws a TypeError after it has set \<^verbatim>\<open>tmpMark\<close> on the function
  \<^verbatim>\<open>Object\<close>, which \<^verbatim>\<open>_cleanup\<close> does not reach; the descriptors of the registry are as
  before, and the same request again throws the cycle error.
\<close>

theorem resolveDependencies_cycle_counterexample:
  "''ping'' \<in> reachable (modules brokenCycle) (conditionalModules brokenCycle) [''ping'']
   \<and> (''ping'', ''ping'') \<in> (depRel (modules brokenCycle))\<^sup>+
   \<and> map_option fst (resolveDependencies 6 [''ping''] brokenCycle) = Some (Inl TypeError)
   \<and> ''ping'' \<in> reachable (modules staleCycle) (conditionalModules staleCycle) [''ping'']
   \<and> (''ping'', ''ping'') \<in> (depRel (modules staleCycle))\<^sup>+
   \<and> map_option fst (resolveDependencies 6 [''ping''] staleCycle) = Some (Inr [])
   \<and> (\<exists>st'. resolveDependencies 6 [''constructor''] exampleModules = Some (Inl TypeError, st')
          \<and> modules st' = modules exampleModules
          \<and> map_option fst (resolveDependencies 6 [''constructor''] st')
              = Some (Inl (CycleError ''Object'')))"
proof -
  have "(''ping'', ''ping'') \<in> depRel (modules brokenCycle)"
    by (simp add: depRel_def depsOf_def brokenCycle_modules emptyDescriptor_def)
  then have "(''ping'', ''ping'') \<in> (depRel (modules brokenCycle))\<^sup>+" by (rule r_into_trancl)
  moreover have "map_option fst (resolveDependencies 6 [''ping''] brokenCycle) = Some (Inl TypeError)"
    by (simp add: pass_simps brokenCycle_modules brokenCycle_fields)
  moreover have "map_option fst (resolveDependencies 6 [''ping''] staleCycle) = Some (Inr [])"
    by (simp add: pass_simps staleCycle_modules staleCycle_fields)
  moreover have "\<exists>st'. resolveDependencies 6 [''constructor''] exampleModules
            = Some (Inl TypeError, st')
          \<and> modules st' = modules exampleModules
          \<and> map_option fst (resolveDependencies 6 [''constructor''] st')
              = Some (Inl (CycleError ''Object''))"
    by (simp add: pass_simps cleanup_def clearFlags_def exampleModules_modules
        exampleModules_index exampleModules_result fun_eq_iff)
  ultimately show ?thesis using staleCycle_cycle by (simp add: reachable_def)
qed

section \<open>DependencyBuilder: conditional modules\<close>

lemma indexed_activated:
  assumes "indexed st" "modules st b = Some db" "condition db = Some cnd" "test cnd"
  shows "b \<in> activated (modules st) (conditionalModules st) (trigger cnd)"
proof -
  from assms(1,2,3) obtain t where "conditionalModules st (trigger cnd) = Some t" "b \<in> set t"
    unfolding indexed_def by blast
  with assms(2,3,4) show ?thesis by (auto simp: activated_def)
qed

text \<open>
  C6 (as amended). On a registry between two passes, as the ConfigParser builds it
  (every module with a condition listed under its trigger), whose modules are stored
  under their names, none of them under a name every object inherits, where every
  dependency other than \<^verbatim>\<open>"exports"\<close> and every name of the conditional index is
  registered (the indexed ones with a condition) and the dependencies form no cycle; for
  a module \<open>b\<close> with a condition whose trigger is \<open>a\<close> and whose test holds, and for a
  request of registered names that contains \<open>a\<close>: \<^verbatim>\<open>resolveDependencies\<close> returns an
  ordering, which contains \<open>a\<close> and \<open>b\<close>, no name twice, and \<open>b\<close> before \<open>a\<close> when
  \<open>a\<close> depends on \<open>b\<close>; and the queue of the pass is the request followed by names
  that were not queued yet, each pushed once.
\<close>

theorem conditional_activation:
  assumes "wellFormed st" "clean st" "indexed st" "acyclic (depRel (modules st))"
    "set request \<subseteq> dom (modules st)"
    "modules st b = Some db" "condition db = Some cnd" "trigger cnd = a" "test cnd"
    "a \<in> set request"
  shows "\<exists>N out st' s more.
           (\<forall>fuel\<ge>N. resolveDependencies fuel request st = Some (Inr out, st'))
           \<and> a \<in> set out \<and> b \<in> set out \<and> distinct out
           \<and> (b \<in> set (depsOf (modules st) a) \<longrightarrow>
                (\<exists>i j. j < i \<and> i < length out \<and> out ! j = b \<and> out ! i = a))
           \<and> resolveLoop N 0 (st\<lparr>queue := request\<rparr>) = Some (Inr s)
           \<and> queue s = request @ more \<and> distinct more \<and> set more \<inter> set request = {}"
proof -
  have n: "namesOk (modules st)" using assms(1) by (simp add: wellFormed_def)
  let ?N = "Suc (fuelBound 0 (st\<lparr>queue := request\<rparr>))"
  from resolveDependencies_progress [OF assms(1,2,5), of ?N]
  obtain x st' where x: "resolveDependencies ?N request st = Some (x, st')"
    "case x of Inl e \<Rightarrow> cycleError st e | Inr out \<Rightarrow> True"
    by auto
  from x(2) acyclic_not_cycleError [OF assms(4)] obtain out where out: "x = Inr out"
    by (cases x) auto
  note run = x(1) [unfolded out]
  have all: "\<forall>fuel\<ge>?N. resolveDependencies fuel request st = Some (Inr out, st')"
    using resolveDependencies_mono [OF run] by blast
  note r = resolveDependencies_returned [OF assms(2) n run]
  have a: "a \<in> set out" using r(4) assms(10) by auto
  have "b \<in> activated (modules st) (conditionalModules st) a"
    using indexed_activated [OF assms(3,6,7,9)] assms(8) by simp
  then have "(a, b) \<in> edges (modules st) (conditionalModules st)"
    by (simp add: edges_def)
  with assms(10) have "b \<in> reachable (modules st) (conditionalModules st) request"
    by (auto simp: reachable_def)
  with r(3) have b: "b \<in> set out" by auto
  have order: "\<exists>i j. j < i \<and> i < length out \<and> out ! j = b \<and> out ! i = a"
    if d: "b \<in> set (depsOf (modules st) a)"
  proof -
    from a obtain i where i: "i < length out" "out ! i = a" by (auto simp: in_set_conv_nth)
    with r(2) d obtain j where "j < i" "out ! j = b" by (auto simp: dependencyFirst_def)
    with i show ?thesis by blast
  qed
  from run obtain s where s: "resolveLoop ?N 0 (st\<lparr>queue := request\<rparr>) = Some (Inr s)"
    by (cases rule: resolveDependencies_cases) auto
  from resolveLoop_returned(2) [OF assms(2) n s]
  obtain more where more: "queue s = request @ more" "distinct more"
    "set more \<inter> set request = {}"
    by (auto simp: grows_def extends_def)
  from all a b r(1) order s more show ?thesis by blast
qed

lemma conditionalExample_modules:
  "modules conditionalExample =
     [''main'' \<mapsto> emptyDescriptor\<lparr>name := ''main''\<rparr>,
      ''shim'' \<mapsto> emptyDescriptor\<lparr>name := ''shim'',
                     condition := Some \<lparr>trigger = ''main'', test = True\<rparr>\<rparr>,
      ''idle'' \<mapsto> emptyDescriptor\<lparr>name := ''idle'',
                     condition := Some \<lparr>trigger = ''main'', test = False\<rparr>\<rparr>]"
  by (simp add: conditionalExample_def configured_simps)

lemma conditionalExample_fields:
  "conditionalModules conditionalExample = [''main'' \<mapsto> [''shim'', ''idle'']]"
  "result conditionalExample = []"
  by (simp_all add: conditionalExample_def configured_simps)

lemma conditionalExample_depsOf: "depsOf (modules conditionalExample) = (\<lambda>k. [])"
  by (auto simp: depsOf_def conditionalExample_modules emptyDescriptor_def fun_eq_iff)

lemma conditionalExample_closedDeps: "closedDeps (modules conditionalExample)"
  by (simp add: closedDeps_def conditionalExample_depsOf)

lemma conditionalExample_registry:
  "wellFormed conditionalExample" "clean conditionalExample" "indexed conditionalExample"
  unfolding conditionalExample_def
  by (rule configured_wellFormed;
      (rule conditionalExample_closedDeps [unfolded conditionalExample_def]
       | simp add: emptyDescriptor_def inheritedNames_def objectPrototype_def))+

lemma conditionalExample_acyclic: "acyclic (depRel (modules conditionalExample))"
  by (simp add: depRel_def conditionalExample_depsOf acyclic_def)

lemma conditionalExample_run:
  "map_option fst (resolveDependencies 6 [''main''] conditionalExample)
     = Some (Inr [''main'', ''shim''])"
  by (simp add: pass_simps conditionalExample_modules conditionalExample_fields)

text \<open>
  Witness of C6: \<^verbatim>\<open>shim\<close> has the condition \<^verbatim>\<open>{trigger: "main", test: () => true}\<close>, and
  \<^verbatim>\<open>idle\<close> a condition with the same trigger whose test fails; \<^verbatim>\<open>main\<close> depends on
  nothing, so \<^verbatim>\<open>shim\<close> is in the ordering through its activation only, and \<^verbatim>\<open>idle\<close> is
  not in it.
\<close>

theorem conditional_activation_witness:
  "wellFormed conditionalExample \<and> clean conditionalExample \<and> indexed conditionalExample
   \<and> acyclic (depRel (modules conditionalExample))
   \<and> set [''main''] \<subseteq> dom (modules conditionalExample)
   \<and> modules conditionalExample ''shim''
       = Some (emptyDescriptor\<lparr>name := ''shim'',
                 condition := Some \<lparr>trigger = ''main'', test = True\<rparr>\<rparr>)
   \<and> ''main'' \<in> set [''main'']
   \<and> depsOf (modules conditionalExample) ''main'' = []
   \<and> (\<exists>N out st'.
         (\<forall>fuel\<ge>N. resolveDependencies fuel [''main''] conditionalExample = Some (Inr out, st'))
         \<and> ''main'' \<in> set out \<and> ''shim'' \<in> set out \<and> distinct out)
   \<and> map_option fst (resolveDependencies 6 [''main''] conditionalExample)
       = Some (Inr [''main'', ''shim''])"
proof -
  let ?db = "emptyDescriptor\<lparr>name := ''shim'',
                 condition := Some \<lparr>trigger = ''main'', test = True\<rparr>\<rparr>"
  let ?cnd = "\<lparr>trigger = ''main'', test = True\<rparr>"
  note reg = conditionalExample_registry
  have d: "set [''main''] \<subseteq> dom (modules conditionalExample)"
    by (simp add: conditionalExample_modules)
  have b: "modules conditionalExample ''shim'' = Some ?db"
    by (simp add: conditionalExample_modules)
  have c: "condition ?db = Some ?cnd" "trigger ?cnd = ''main''" "test ?cnd"
    by simp_all
  have m: "''main'' \<in> set [''main'']" by simp
  from conditional_activation [OF reg conditionalExample_acyclic d b c m]
  have "\<exists>N out st'.
         (\<forall>fuel\<ge>N. resolveDependencies fuel [''main''] conditionalExample = Some (Inr out, st'))
         \<and> ''main'' \<in> set out \<and> ''shim'' \<in> set out \<and> distinct out"
    by blast
  with reg conditionalExample_acyclic d b conditionalExample_run show ?thesis
    by (simp add: conditionalExample_depsOf)
qed

lemma conditionalDangling_modules:
  "modules conditionalDangling =
     [''main'' \<mapsto> emptyDescriptor\<lparr>name := ''main'', dependencies := [''ghost'']\<rparr>,
      ''shim'' \<mapsto> emptyDescriptor\<lparr>name := ''shim'',
                     condition := Some \<lparr>trigger = ''main'', test = True\<rparr>\<rparr>]"
  by (simp add: conditionalDangling_def configured_simps)

lemma conditionalDangling_fields:
  "conditionalModules conditionalDangling = [''main'' \<mapsto> [''shim'']]"
  "result conditionalDangling = []"
  by (simp_all add: conditionalDangling_def configured_simps)

text \<open>
  C6 (counterexample). In the registry of the configuration \<^verbatim>\<open>{main: {dependencies:
  ["ghost"]}, shim: {dependencies: [], condition: {trigger: "main", test: () => true}}}\<close>
  the module \<^verbatim>\<open>shim\<close> declares its condition as the claim says, and the request holds
  \<^verbatim>\<open>main\<close>; the pass yields no ordering: it throws a TypeError at the unregistered
  dependency of \<^verbatim>\<open>main\<close>.
\<close>

theorem conditional_activation_counterexample:
  "modules conditionalDangling ''shim''
     = Some (emptyDescriptor\<lparr>name := ''shim'',
               condition := Some \<lparr>trigger = ''main'', test = True\<rparr>\<rparr>)
   \<and> conditionalModules conditionalDangling ''main'' = Some [''shim'']
   \<and> ''main'' \<in> set [''main'']
   \<and> map_option fst (resolveDependencies 6 [''main''] conditionalDangling)
       = Some (Inl TypeError)"
proof -
  have "map_option fst (resolveDependencies 6 [''main''] conditionalDangling)
       = Some (Inl TypeError)"
    by (simp add: pass_simps conditionalDangling_modules conditionalDangling_fields)
  then show ?thesis
    by (simp add: conditionalDangling_modules conditionalDangling_fields)
qed

section \<open>Loader: names the registry does not hold\<close>

lemma filterRegistered_filter:
  "filterRegistered ms rs acc = acc @ filter (\<lambda>r. getProperty ms r \<noteq> Missing) rs"
  by (induction rs arbitrary: acc) (auto split: property.splits)

lemma found_iff: "getProperty ms r \<noteq> Missing \<longleftrightarrow> r \<in> dom ms \<or> r \<in> set inheritedNames"
  by (auto simp: getProperty_Missing_iff)

text \<open>
  C7 (as amended). \<^verbatim>\<open>Loader._resolveDependencies\<close> passes to the builder the requested
  names under which the lookup in the registry finds something: the names of
  registered modules, and the names every object inherits. A requested name that is
  neither changes nothing in the outcome of the call. (The builder itself does not pass
  over such a name.)
\<close>

theorem loaderResolveDependencies_drops_unknown:
  assumes "m \<notin> dom (modules st)" "m \<notin> set inheritedNames"
  shows "loaderResolveDependencies fuel (xs @ m # ys) st
           = loaderResolveDependencies fuel (xs @ ys) st
       \<and> loaderResolveDependencies fuel (xs @ m # ys) st
           = resolveDependencies fuel
               (filter (\<lambda>r. r \<in> dom (modules st) \<or> r \<in> set inheritedNames) (xs @ ys)) st"
  using assms by (simp add: loaderResolveDependencies_def filterRegistered_filter found_iff)

text \<open>Witness of C7: the request \<^verbatim>\<open>["app", "ghost"]\<close>, where \<^verbatim>\<open>ghost\<close> is not registered.\<close>

theorem loaderResolveDependencies_drops_unknown_witness:
  "''ghost'' \<notin> dom (modules exampleModules) \<and> ''ghost'' \<notin> set inheritedNames
   \<and> loaderResolveDependencies 6 ([''app''] @ ''ghost'' # []) exampleModules
       = loaderResolveDependencies 6 ([''app''] @ []) exampleModules
   \<and> map_option fst (loaderResolveDependencies 6 ([''app''] @ ''ghost'' # []) exampleModules)
       = Some (Inr [''core'', ''util'', ''app'', ''extra''])"
proof -
  have g: "''ghost'' \<notin> dom (modules exampleModules)" "''ghost'' \<notin> set inheritedNames"
    by (simp_all add: exampleModules_modules inheritedNames_def objectPrototype_def)
  have "filterRegistered (modules exampleModules) [''app''] [] = [''app'']"
    by (simp add: exampleModules_modules)
  then have "map_option fst (loaderResolveDependencies 6 ([''app''] @ []) exampleModules)
       = Some (Inr [''core'', ''util'', ''app'', ''extra''])"
    using exampleModules_run by (simp add: loaderResolveDependencies_def)
  with loaderResolveDependencies_drops_unknown [OF g, of 6 "[''app'']" "[]"] g
  show ?thesis by simp
qed

text \<open>
  C7 (counterexample). \<^verbatim>\<open>DependencyBuilder.resolveDependencies\<close> itself, given the request
  \<^verbatim>\<open>["app", "ghost"]\<close>, throws a TypeError on \<^verbatim>\<open>modules["ghost"].mark\<close>. And
  \<^verbatim>\<open>Loader._resolveDependencies\<close> does not drop the unregistered name \<^verbatim>\<open>constructor\<close>:
  the request \<^verbatim>\<open>["constructor", "app"]\<close> ends with a TypeError, where \<^verbatim>\<open>["app"]\<close> gives
  an ordering.
\<close>

theorem resolveDependencies_unknown_counterexample:
  "''ghost'' \<notin> dom (modules exampleModules)
   \<and> map_option fst (resolveDependencies 6 [''app'', ''ghost''] exampleModules)
       = Some (Inl TypeError)
   \<and> ''constructor'' \<notin> dom (modules exampleModules)
   \<and> map_option fst (loaderResolveDependencies 6 [''constructor'', ''app''] exampleModules)
       = Some (Inl TypeError)
   \<and> map_option fst (loaderResolveDependencies 6 [''app''] exampleModules)
       = Some (Inr [''core'', ''util'', ''app'', ''extra''])"
  by (simp add: loaderResolveDependencies_def pass_simps exampleModules_modules
      exampleModules_index exampleModules_result)

section \<open>Loader: a request whose modules are implemented\<close>

lemma filterModulesNoImpl_filter:
  "filterModulesNoImpl ms rs acc
     = acc @ filter (\<lambda>m. \<not> (\<exists>d. ms m = Some d \<and> truthy (implementation d))) rs"
proof (induction rs arbitrary: acc)
  case Nil
  then show ?case by simp
next
  case (Cons m rs)
  have "(case getProperty ms m of
           Missing \<Rightarrow> acc @ [m]
         | Inherited b \<Rightarrow> acc @ [m]
         | Own r \<Rightarrow> if truthy (implementation r) then acc else acc @ [m])
        = (if \<exists>d. ms m = Some d \<and> truthy (implementation d) then acc else acc @ [m])"
  proof (cases "getProperty ms m")
    case (Own r)
    then have "ms m = Some r" by (simp add: getProperty_Own_iff)
    with Own show ?thesis by simp
  next
    case (Inherited b)
    from getProperty_Inherited(1) [OF this] Inherited show ?thesis by simp
  next
    case Missing
    then have "ms m = None" by (simp add: getProperty_Missing_iff)
    with Missing show ?thesis by simp
  qed
  with Cons show ?case by simp
qed

lemma filterNotLoadedModules_implemented:
  assumes "\<forall>m\<in>set rs. \<exists>d. modules st m = Some d \<and> truthy (implementation d)"
  shows "filterNotLoadedModules st rs acc = acc"
  using assms by (induction rs arbitrary: acc) auto

lemma base_implementation:
  assumes "ms' = base ms"
  shows "(\<exists>d. ms' m = Some d \<and> truthy (implementation d))
       \<longleftrightarrow> (\<exists>d. ms m = Some d \<and> truthy (implementation d))"
  using assms by (cases "ms m") (auto simp: base_def clearFlags_def)

lemma implementationOf_base:
  assumes "modules st' = base (modules st)"
  shows "implementationOf st' = implementationOf st"
proof
  fix r
  show "implementationOf st' r = implementationOf st r"
    using assms by (cases "modules st r") (auto simp: implementationOf_def base_def clearFlags_def)
qed

lemma requireSettled_Fulfilled:
  "requireSettled requested (Some f) failure Fulfilled st
     = Some (f (map (implementationOf st) requested))"
  by (simp add: requireSettled_def requireFulfilled_def addModuleImplementations_def
      addImplementationsLoop_map implementationOf_def [abs_def])

text \<open>
  When every module of the ordering the builder returned has an implementation, the
  chain of \<^verbatim>\<open>require\<close> is fulfilled when the call returns, and the handler applies the
  success callback to the implementations of the names the caller gave, one per name
  and in the order of the request (\<^verbatim>\<open>undefined\<close> for a name the registry does not hold).
\<close>

lemma require_implemented:
  assumes "loaderResolveDependencies fuel requested st = Some (Inr ordered, st1)"
    and "\<forall>m\<in>set ordered. \<exists>d. modules st m = Some d \<and> truthy (implementation d)"
  shows "require cfg fuel requested st = Some (Fulfilled, st1)"
    and "requireSettled requested (Some f) failure Fulfilled st1
           = Some (f (map (implementationOf st) requested))"
proof -
  from assms(1) have "resolveDependencies fuel (filterRegistered (modules st) requested []) st
      = Some (Inr ordered, st1)"
    by (simp add: loaderResolveDependencies_def)
  from resolveDependencies_cleanup [OF this]
  have m1: "modules st1 = base (modules st)" by simp
  have impl: "\<forall>m\<in>set ordered. \<exists>d. modules st1 m = Some d \<and> truthy (implementation d)"
    using assms(2) base_implementation [OF m1] by simp
  then have "filterModulesNoImpl (modules st1) ordered [] = []"
    by (simp add: filterModulesNoImpl_filter)
  moreover have "filterNotLoadedModules st1 ordered [] = []"
    by (rule filterNotLoadedModules_implemented [OF impl])
  ultimately have "loadModules cfg ordered st1 = (Fulfilled, st1)"
    by (simp add: loadModules_def waitForImplementations_def)
  with assms(1) show "require cfg fuel requested st = Some (Fulfilled, st1)"
    by (simp add: require_def)
  show "requireSettled requested (Some f) failure Fulfilled st1
           = Some (f (map (implementationOf st) requested))"
    by (simp add: requireSettled_Fulfilled implementationOf_base [OF m1])
qed

lemma implementedModules_modules:
  "modules implementedModules
     = (\<lambda>k. if k = ''lib'' then Some (emptyDescriptor\<lparr>name := ''lib'', implementation := Object 1\<rparr>)
            else if k = ''app''
              then Some (emptyDescriptor\<lparr>name := ''app'', dependencies := [''lib''],
                           implementation := Object 2\<rparr>)
            else None)"
  by (rule ext) (simp add: implementedModules_def configured_simps)

lemma implementedModules_fields:
  "conditionalModules implementedModules = Map.empty \<and> queue implementedModules = []
   \<and> result implementedModules = [] \<and> inheritedTmpMark implementedModules = {}
   \<and> inheritedConditionalMark implementedModules = {}"
  by (simp add: implementedModules_def configured_simps)

text \<open>
  The example: \<^verbatim>\<open>app\<close> depends on \<^verbatim>\<open>lib\<close>, both are implemented, and
  \<^verbatim>\<open>require(["app"], success)\<close> calls \<^verbatim>\<open>success\<close> with the implementation of \<^verbatim>\<open>app\<close> alone,
  although the ordering is \<^verbatim>\<open>["lib", "app"]\<close>.
\<close>

lemma require_implemented_example:
  "\<exists>st1. require (exampleConfig False) 6 [''app''] implementedModules = Some (Fulfilled, st1)
         \<and> loaderResolveDependencies 6 [''app''] implementedModules
             = Some (Inr [''lib'', ''app''], st1)
         \<and> requireSettled [''app''] (Some (\<lambda>args. args)) (Some (\<lambda>err. [])) Fulfilled st1
             = Some [Object 2]"
proof -
  have "map_option fst (loaderResolveDependencies 6 [''app''] implementedModules)
      = Some (Inr [''lib'', ''app''])"
    by (simp add: loaderResolveDependencies_def pass_simps implementedModules_modules
        implementedModules_fields)
  then obtain st1 where pass: "loaderResolveDependencies 6 [''app''] implementedModules
      = Some (Inr [''lib'', ''app''], st1)"
    by (cases "loaderResolveDependencies 6 [''app''] implementedModules") auto
  have impl: "\<forall>m\<in>set [''lib'', ''app''].
      \<exists>d. modules implementedModules m = Some d \<and> truthy (implementation d)"
    by (simp add: implementedModules_modules emptyDescriptor_def)
  have "implementationOf implementedModules ''app'' = Object 2"
    by (simp add: implementationOf_def implementedModules_modules emptyDescriptor_def)
  with require_implemented(1) [OF pass impl, where cfg = "exampleConfig False"]
    require_implemented(2) [OF pass impl, where f = "\<lambda>args. args"
      and failure = "Some (\<lambda>err. [])"] pass
  show ?thesis by simp
qed

section \<open>Loader: a request that waits\<close>

lemma waitLoop_map:
  "waitLoop ms noImpl s rest r
     = r @ map (\<lambda>i. waitForImplementation (getProperty ms (elementKey noImpl i)))
             [s..<s + length rest]"
proof (induction rest arbitrary: s r)
  case Nil
  then show ?case by simp
next
  case (Cons x rest)
  have "[s..<s + length (x # rest)] = s # [Suc s..<Suc s + length rest]"
    by (simp add: upt_rec)
  with Cons [of "Suc s"] show ?case by simp
qed

text \<open>
  With fewer modules without implementation than modules in the ordering, the loop of
  \<^verbatim>\<open>_waitForImplementations\<close> calls \<^verbatim>\<open>_waitForImplementation(undefined)\<close>, and one of the
  promises it collects is rejected (unless a module is registered under the name
  \<^verbatim>\<open>undefined\<close>).
\<close>

lemma waitLoop_rejected:
  assumes "length noImpl < length ordered" "''undefined'' \<notin> dom ms"
  shows "Failed TypeError \<in> set (waitLoop ms noImpl 0 ordered [])"
proof -
  have u: "getProperty ms ''undefined'' = Missing"
    using assms(2)
    by (auto simp: getProperty_Missing_iff inheritedNames_def objectPrototype_def)
  have "waitForImplementation (getProperty ms (elementKey noImpl (length noImpl)))
      = Failed TypeError"
    by (simp add: elementKey_def u waitForImplementation_def)
  moreover have "length noImpl \<in> set [0..<0 + length ordered]"
    using assms(1) by simp
  ultimately show ?thesis
    unfolding waitLoop_map by (metis (no_types, lifting) append_Nil image_eqI set_map)
qed

lemma notify_Failed:
  assumes "Failed e \<in> set r"
  shows "Failed e \<in> set (notify ms r)"
  using assms by (induction ms r rule: notify.induct) (auto split: sum.splits)

lemma promiseAll_Failed:
  assumes "Failed e \<in> set r"
  shows "promiseAll r = Awaiting r"
proof -
  have "\<not> list_all (\<lambda>w. w = Satisfied) r"
    using assms by (auto simp: list_all_iff)
  then show ?thesis by (simp add: promiseAll_def)
qed

text \<open>
  A rejected promise stays rejected: once one of the promises collected in
  \<^verbatim>\<open>Promise.all\<close> is rejected, the promise of \<^verbatim>\<open>_waitForImplementations\<close> is never
  fulfilled, whatever happens afterwards.
\<close>

lemma advanceAll_Failed:
  assumes "Failed e \<in> set r"
  shows "\<exists>r'. advanceAll events (Awaiting r) = Awaiting r' \<and> Failed e \<in> set r'"
  using assms
proof (induction events arbitrary: r)
  case Nil
  then show ?case by (simp add: advanceAll_def)
next
  case (Cons ev events)
  have "\<exists>r1. advance ev (Awaiting r) = Awaiting r1 \<and> Failed e \<in> set r1"
  proof (cases ev)
    case (ModuleRegister st)
    from notify_Failed [OF Cons.prems, of "modules st"]
    show ?thesis by (simp add: ModuleRegister promiseAll_Failed)
  qed (use Cons.prems in simp_all)
  then obtain r1 where r1: "advance ev (Awaiting r) = Awaiting r1" "Failed e \<in> set r1"
    by blast
  from Cons.IH [OF r1(2)] r1(1) show ?case by (simp add: advanceAll_def)
qed

lemma filterModulesNoImpl_length:
  "length (filterModulesNoImpl ms ordered []) \<le> length ordered"
  by (simp add: filterModulesNoImpl_filter)

text \<open>
  C3 (the code where the claim fails). For a request whose ordering the builder has
  returned, with nothing left to fetch (every module of the ordering is implemented or
  being fetched already), of which some modules but not all lack an implementation
  (and no module is called \<^verbatim>\<open>undefined\<close>): the chain of \<^verbatim>\<open>require\<close> waits on promises one
  of which is rejected, and whatever happens afterwards (scripts loading, modules being
  registered, every module of the ordering getting its implementation) neither the
  success callback nor the failure callback is ever called. And where the chain waits
  on the one promise of a module whose dependencies are implemented at the next
  registration of any module, that registration fulfils it, whether or not the module
  waited for has an implementation by then: the success callback is called with
  whatever the registry holds for the requested names at that moment.
\<close>

theorem require_success_not_called:
  "(loaderResolveDependencies fuel requested st = Some (Inr ordered, st1)
      \<and> filterNotLoadedModules st1 ordered [] = []
      \<and> filterModulesNoImpl (modules st1) ordered [] \<noteq> []
      \<and> filterModulesNoImpl (modules st1) ordered [] \<noteq> ordered
      \<and> ''undefined'' \<notin> dom (modules st1)
    \<longrightarrow> (\<exists>r. require cfg fuel requested st = Some (Awaiting r, st1)
            \<and> (\<forall>events st'. requireSettled requested (Some f) (Some g)
                               (advanceAll events (Awaiting r)) st' = None)))
   \<and> (checkModuleDependencies (modules st2) deps = Inr True
    \<longrightarrow> requireSettled requested' (Some f) (Some g)
            (advance (ModuleRegister st2) (Awaiting [Listening deps])) st3
          = Some (f (map (implementationOf st3) requested')))"
proof (intro conjI impI)
  assume a: "loaderResolveDependencies fuel requested st = Some (Inr ordered, st1)
      \<and> filterNotLoadedModules st1 ordered [] = []
      \<and> filterModulesNoImpl (modules st1) ordered [] \<noteq> []
      \<and> filterModulesNoImpl (modules st1) ordered [] \<noteq> ordered
      \<and> ''undefined'' \<notin> dom (modules st1)"
  let ?noImpl = "filterModulesNoImpl (modules st1) ordered []"
  let ?r = "waitLoop (modules st1) ?noImpl 0 ordered []"
  from a have "\<not> (\<forall>m\<in>set ordered. \<not> (\<exists>d. modules st1 m = Some d \<and> truthy (implementation d)))"
    by (simp add: filterModulesNoImpl_filter filter_id_conv)
  then obtain m where "m \<in> set ordered"
    "\<not> \<not> (\<exists>d. modules st1 m = Some d \<and> truthy (implementation d))"
    by blast
  from length_filter_less [of m ordered
      "\<lambda>m. \<not> (\<exists>d. modules st1 m = Some d \<and> truthy (implementation d))", OF this]
  have "length ?noImpl < length ordered"
    by (simp add: filterModulesNoImpl_filter)
  from waitLoop_rejected [OF this] a have f: "Failed TypeError \<in> set ?r" by simp
  have "loadModules cfg ordered st1 = (Awaiting ?r, st1)"
    using a by (simp add: loadModules_def waitForImplementations_def promiseAll_Failed [OF f])
  with a have run: "require cfg fuel requested st = Some (Awaiting ?r, st1)"
    by (simp add: require_def)
  have "requireSettled requested (Some f) (Some g) (advanceAll events (Awaiting ?r)) st' = None"
    for events st'
    using advanceAll_Failed [OF f, of events] by (auto simp: requireSettled_def)
  with run show "\<exists>r. require cfg fuel requested st = Some (Awaiting r, st1)
            \<and> (\<forall>events st'. requireSettled requested (Some f) (Some g)
                               (advanceAll events (Awaiting r)) st' = None)"
    by blast
next
  assume "checkModuleDependencies (modules st2) deps = Inr True"
  then have "advance (ModuleRegister st2) (Awaiting [Listening deps]) = Fulfilled"
    by (simp add: promiseAll_def)
  then show "requireSettled requested' (Some f) (Some g)
            (advance (ModuleRegister st2) (Awaiting [Listening deps])) st3
          = Some (f (map (implementationOf st3) requested'))"
    by (simp add: requireSettled_Fulfilled)
qed

subsection \<open>The page of the example\<close>

lemma pageConfigured_modules:
  "modules pageConfigured
     = (\<lambda>k. if k = ''lib'' then Some (emptyDescriptor\<lparr>name := ''lib''\<rparr>)
            else if k = ''app'' then Some (emptyDescriptor\<lparr>name := ''app'', dependencies := [''lib'']\<rparr>)
            else if k = ''solo'' then Some (emptyDescriptor\<lparr>name := ''solo''\<rparr>)
            else None)"
  by (rule ext) (simp add: pageConfigured_def configured_simps)

lemma pageConfigured_fields:
  "conditionalModules pageConfigured = Map.empty \<and> queue pageConfigured = []
   \<and> result pageConfigured = [] \<and> inheritedTmpMark pageConfigured = {}
   \<and> inheritedConditionalMark pageConfigured = {} \<and> inheritedLoad pageConfigured = {}"
  by (simp add: pageConfigured_def configured_simps)

lemma pageLibDefined_modules:
  "modules pageLibDefined
     = (\<lambda>k. if k = ''lib''
              then Some (emptyDescriptor\<lparr>name := ''lib'',
                           pendingImplementation := Some (\<lambda>args. Object 1),
                           implementation := Object 1\<rparr>)
            else if k = ''app'' then Some (emptyDescriptor\<lparr>name := ''app'', dependencies := [''lib'']\<rparr>)
            else if k = ''solo'' then Some (emptyDescriptor\<lparr>name := ''solo''\<rparr>)
            else None)"
  by (rule ext)
     (simp add: pageLibDefined_def loaderDefine_def registerModule_def 
        pageConfigured_modules pageConfigured_fields configured_simps)

lemma pageLibDefined_fields:
  "conditionalModules pageLibDefined = Map.empty \<and> queue pageLibDefined = []
   \<and> result pageLibDefined = [] \<and> inheritedTmpMark pageLibDefined = {}
   \<and> inheritedConditionalMark pageLibDefined = {} \<and> inheritedLoad pageLibDefined = {}"
  by (simp add: pageLibDefined_def loaderDefine_def registerModule_def 
        pageConfigured_modules pageConfigured_fields configured_simps)

lemma pageFetching_run:
  "map_option fst (require (exampleConfig False) 8 [''app'', ''solo''] pageLibDefined)
     = Some (Fetching [''http://h/combo/base/app.js'', ''http://h/combo/base/solo.js'']
               [''lib'', ''app'', ''solo''])"
  by (simp add: require_def loaderResolveDependencies_def loadModules_def build_def
        exampleConfig_def normalizedBasePath_def getModulePath_def
        pageLibDefined_modules pageLibDefined_fields pass_simps cleanup_def base_def
        clearFlags_def truthyString_def indexOf_def Let_def)

lemmas page_simps = require_def loaderResolveDependencies_def loadModules_def build_def
  waitForImplementations_def waitForImplementation_def promiseAll_def elementKey_def
  exampleConfig_def normalizedBasePath_def getModulePath_def pass_simps cleanup_def base_def
  clearFlags_def truthyString_def indexOf_def Let_def

lemma pageFetching_modules:
  "modules pageFetching
     = (\<lambda>k. if k = ''lib''
              then Some (emptyDescriptor\<lparr>name := ''lib'',
                           pendingImplementation := Some (\<lambda>args. Object 1),
                           implementation := Object 1\<rparr>)
            else if k = ''app''
              then Some (emptyDescriptor\<lparr>name := ''app'', dependencies := [''lib''], load := True\<rparr>)
            else if k = ''solo'' then Some (emptyDescriptor\<lparr>name := ''solo'', load := True\<rparr>)
            else None)"
  by (rule ext)
     (simp add: pageFetching_def pageLibDefined_modules pageLibDefined_fields page_simps)

lemma pageFetching_fields:
  "conditionalModules pageFetching = Map.empty \<and> queue pageFetching = []
   \<and> result pageFetching = [] \<and> inheritedTmpMark pageFetching = {}
   \<and> inheritedConditionalMark pageFetching = {} \<and> inheritedLoad pageFetching = {}"
  by (simp add: pageFetching_def pageLibDefined_modules pageLibDefined_fields page_simps)

lemma pageAppDefined_modules:
  "modules pageAppDefined
     = (\<lambda>k. if k = ''lib''
              then Some (emptyDescriptor\<lparr>name := ''lib'',
                           pendingImplementation := Some (\<lambda>args. Object 1),
                           implementation := Object 1\<rparr>)
            else if k = ''app''
              then Some (emptyDescriptor\<lparr>name := ''app'', dependencies := [''lib''],
                           pendingImplementation := Some (\<lambda>args. Object 2),
                           implementation := Object 2\<rparr>)
            else if k = ''solo'' then Some (emptyDescriptor\<lparr>name := ''solo'', load := True\<rparr>)
            else None)"
  by (rule ext)
     (simp add: pageAppDefined_def loaderDefine_def registerModule_def
        pageFetching_modules pageFetching_fields configured_simps)

lemma pageFetching_app:
  "map_option fst (require (exampleConfig False) 8 [''app''] pageFetching)
     = Some (Awaiting [Listening [''lib''], Failed TypeError])"
  by (simp add: pageFetching_modules pageFetching_fields page_simps)

lemma pageFetching_solo:
  "map_option fst (require (exampleConfig False) 8 [''solo''] pageFetching)
     = Some (Awaiting [Listening []])"
  by (simp add: pageFetching_modules pageFetching_fields page_simps)

lemma pageFetching_pass:
  "loaderResolveDependencies 8 [''app''] pageFetching
     = Some (Inr [''lib'', ''app''], pageFetching)"
proof -
  have "map_option fst (loaderResolveDependencies 8 [''app''] pageFetching)
      = Some (Inr [''lib'', ''app''])"
    by (simp add: pageFetching_modules pageFetching_fields page_simps)
  moreover have "map_option snd (loaderResolveDependencies 8 [''app''] pageFetching)
      = Some pageFetching"
    apply (simp add: pageFetching_modules pageFetching_fields page_simps)
    apply (rule state.equality)
          apply (simp_all add: pageFetching_modules pageFetching_fields fun_eq_iff
        emptyDescriptor_def clearFlags_def)
    done
  ultimately show ?thesis
    by (cases "loaderResolveDependencies 8 [''app''] pageFetching") auto
qed

text \<open>
  C3 (the example). On the page of the example, after \<^verbatim>\<open>define("lib", [], factory)\<close> and
  a first \<^verbatim>\<open>require(["app", "solo"])\<close> whose scripts are being fetched, a second request
  \<^verbatim>\<open>require(["app"], success, failure)\<close> has the ordering \<^verbatim>\<open>["lib", "app"]\<close>, nothing to
  fetch, and \<^verbatim>\<open>app\<close> alone without implementation: it waits on the promise of \<^verbatim>\<open>app\<close> and
  on the rejected promise of \<^verbatim>\<open>_waitForImplementation(undefined)\<close>, and calls neither
  callback whatever happens afterwards, although \<^verbatim>\<open>lib\<close> and \<^verbatim>\<open>app\<close> both have their
  implementation once the script of \<^verbatim>\<open>app\<close> has run. And a request
  \<^verbatim>\<open>require(["solo"], success, failure)\<close> made at the same moment waits on the one promise
  of \<^verbatim>\<open>solo\<close>, which has no dependencies: the registration of \<^verbatim>\<open>app\<close> fulfils it, and the
  success callback is called with \<^verbatim>\<open>undefined\<close> for \<^verbatim>\<open>solo\<close>, which has no implementation.
\<close>

theorem require_success_not_called_witness:
  "loaderResolveDependencies 8 [''app''] pageFetching
       = Some (Inr [''lib'', ''app''], pageFetching)
   \<and> filterNotLoadedModules pageFetching [''lib'', ''app''] [] = []
   \<and> filterModulesNoImpl (modules pageFetching) [''lib'', ''app''] [] = [''app'']
   \<and> ''undefined'' \<notin> dom (modules pageFetching)
   \<and> require (exampleConfig False) 8 [''app''] pageFetching
       = Some (Awaiting [Listening [''lib''], Failed TypeError], pageFetching)
   \<and> (\<forall>events st'. requireSettled [''app''] (Some (\<lambda>args. args)) (Some (\<lambda>err. []))
                       (advanceAll events (Awaiting [Listening [''lib''], Failed TypeError])) st'
                     = None)
   \<and> filterModulesNoImpl (modules pageAppDefined) [''lib'', ''app''] [] = []
   \<and> map_option fst (require (exampleConfig False) 8 [''solo''] pageFetching)
       = Some (Awaiting [Listening []])
   \<and> checkModuleDependencies (modules pageAppDefined) [] = Inr True
   \<and> implementationOf pageAppDefined ''solo'' = Undefined
   \<and> requireSettled [''solo''] (Some (\<lambda>args. args)) (Some (\<lambda>err. []))
        (advance (ModuleRegister pageAppDefined) (Awaiting [Listening []])) pageAppDefined
       = Some [Undefined]"
proof -
  have pass: "loaderResolveDependencies 8 [''app''] pageFetching
       = Some (Inr [''lib'', ''app''], pageFetching)"
    by (rule pageFetching_pass)
  have loaded: "filterNotLoadedModules pageFetching [''lib'', ''app''] [] = []"
    by (simp add: pageFetching_modules emptyDescriptor_def)
  have noImpl: "filterModulesNoImpl (modules pageFetching) [''lib'', ''app''] [] = [''app'']"
    by (simp add: pageFetching_modules emptyDescriptor_def)
  have undef: "''undefined'' \<notin> dom (modules pageFetching)"
    by (simp add: pageFetching_modules dom_def)
  have run: "require (exampleConfig False) 8 [''app''] pageFetching
       = Some (Awaiting [Listening [''lib''], Failed TypeError], pageFetching)"
    using pass loaded noImpl
    by (simp add: require_def loadModules_def waitForImplementations_def promiseAll_def
        waitForImplementation_def elementKey_def pageFetching_modules emptyDescriptor_def
        getProperty_def objectPrototype_def)
  have solo: "implementationOf pageAppDefined ''solo'' = Undefined"
    by (simp add: implementationOf_def pageAppDefined_modules emptyDescriptor_def)
  note general = require_success_not_called [where fuel = 8 and requested = "[''app'']"
      and st = pageFetching and ordered = "[''lib'', ''app'']" and ?st1.0 = pageFetching
      and cfg = "exampleConfig False" and f = "\<lambda>args. args" and g = "\<lambda>err. []"
      and ?st2.0 = pageAppDefined and deps = "[]" and requested' = "[''solo'']"
      and ?st3.0 = pageAppDefined]
  from general pass loaded noImpl undef
  have "\<exists>r. require (exampleConfig False) 8 [''app''] pageFetching = Some (Awaiting r, pageFetching)
          \<and> (\<forall>events st'. requireSettled [''app''] (Some (\<lambda>args. args)) (Some (\<lambda>err. []))
                             (advanceAll events (Awaiting r)) st' = None)"
    by simp
  with run have never: "\<forall>events st'. requireSettled [''app''] (Some (\<lambda>args. args)) (Some (\<lambda>err. []))
                       (advanceAll events (Awaiting [Listening [''lib''], Failed TypeError])) st'
                     = None"
    by simp
  from general solo
  have early: "requireSettled [''solo''] (Some (\<lambda>args. args)) (Some (\<lambda>err. []))
        (advance (ModuleRegister pageAppDefined) (Awaiting [Listening []])) pageAppDefined
       = Some [Undefined]"
    by simp
  have allImpl: "filterModulesNoImpl (modules pageAppDefined) [''lib'', ''app''] [] = []"
    by (simp add: pageAppDefined_modules emptyDescriptor_def)
  have ready: "checkModuleDependencies (modules pageAppDefined) [] = Inr True"
    by simp
  from pass loaded noImpl undef run never allImpl pageFetching_solo ready solo early
  show ?thesis by (intro conjI)
qed

end
